theory Spec2Isabelle
  imports Complex_Main "HOL-Library.Word" "HOL-Library.Multiset" "HOL-Library.Product_Lexorder"
begin

section \<open>Data model of the system monitor\<close>

text \<open>
  The monitor keeps its counters in \<^verbatim>\<open>unsigned long long\<close> variables: 64-bit words whose
  addition and subtraction wrap around. Percentages are \<^verbatim>\<open>double\<close> values. The system CPU
  percentage is computed with the rounding of every conversion and operation, since its
  bounds depend on it; the percentages of the processes are given by the real numbers that
  their formulas denote.
\<close>

type_synonym u64 = "64 word"

record CpuSnapshot =
  user :: u64
  nice :: u64
  system :: u64
  idle :: u64
  iowait :: u64
  irq :: u64
  softirq :: u64
  steal :: u64
  guest :: u64
  guest_nice :: u64

definition total_of :: "CpuSnapshot \<Rightarrow> u64" where
  "total_of s = user s + nice s + system s + idle s + iowait s + irq s + softirq s
             + steal s + guest s + guest_nice s"

definition idleAll :: "CpuSnapshot \<Rightarrow> u64" where
  "idleAll s = idle s + iowait s"

text \<open>Lines 222-228 of \<^verbatim>\<open>main\<close>: the two differences and the system CPU percentage.\<close>

definition tot_diff :: "CpuSnapshot \<Rightarrow> CpuSnapshot \<Rightarrow> u64" where
  "tot_diff prev_cpu cur_cpu = total_of cur_cpu - total_of prev_cpu"

definition idle_diff :: "CpuSnapshot \<Rightarrow> CpuSnapshot \<Rightarrow> u64" where
  "idle_diff prev_cpu cur_cpu = idleAll cur_cpu - idleAll prev_cpu"

text \<open>
  A \<^verbatim>\<open>double\<close> has a significand of 53 bits: a positive real \<open>x\<close> with
  \<open>2 ^ e \<le> x < 2 ^ (e + 1)\<close> is rounded to the nearest multiple of \<open>2 ^ (e - 52)\<close>, a tie
  going to the even multiple. The values of this program stay far from the largest and the
  smallest exponent of the format, so the exponent is not bounded here.
\<close>

definition rne :: "real \<Rightarrow> int" where
  "rne y = (let f = \<lfloor>y\<rfloor>; r = y - of_int f
            in if r < 1 / 2 then f else if r > 1 / 2 then f + 1
               else if even f then f else f + 1)"

definition binade :: "real \<Rightarrow> int" where
  "binade x = \<lfloor>log 2 x\<rfloor>"

definition fl :: "real \<Rightarrow> real" where
  "fl x = (if x = 0 then 0
           else sgn x * (of_int (rne (\<bar>x\<bar> / 2 powi (binade \<bar>x\<bar> - 52)))
                         * 2 powi (binade \<bar>x\<bar> - 52)))"

text \<open>
  Line 228: \<^verbatim>\<open>100.0 * (double)(tot_diff - idle_diff) / (double)tot_diff\<close>, the product
  first, each conversion and each operation rounded.
\<close>

definition cpu_usage :: "CpuSnapshot \<Rightarrow> CpuSnapshot \<Rightarrow> real" where
  "cpu_usage prev_cpu cur_cpu =
     (if tot_diff prev_cpu cur_cpu > 0
      then fl (fl (100 * fl (real (unat (tot_diff prev_cpu cur_cpu - idle_diff prev_cpu cur_cpu))))
               / fl (real (unat (tot_diff prev_cpu cur_cpu))))
      else 0)"

text \<open>The hypothesis of monotone counters, and the sums of a snapshot without wrap-around.\<close>

definition counters_le :: "CpuSnapshot \<Rightarrow> CpuSnapshot \<Rightarrow> bool" where
  "counters_le p c \<longleftrightarrow>
     user p \<le> user c \<and> nice p \<le> nice c \<and> system p \<le> system c \<and> idle p \<le> idle c \<and>
     iowait p \<le> iowait c \<and> irq p \<le> irq c \<and> softirq p \<le> softirq c \<and> steal p \<le> steal c \<and>
     guest p \<le> guest c \<and> guest_nice p \<le> guest_nice c"

definition total_nat :: "CpuSnapshot \<Rightarrow> nat" where
  "total_nat s = unat (user s) + unat (nice s) + unat (system s) + unat (idle s)
     + unat (iowait s) + unat (irq s) + unat (softirq s) + unat (steal s) + unat (guest s)
     + unat (guest_nice s)"

definition idle_nat :: "CpuSnapshot \<Rightarrow> nat" where
  "idle_nat s = unat (idle s) + unat (iowait s)"

definition zero_cpu :: CpuSnapshot where
  "zero_cpu = \<lparr>user = 0, nice = 0, system = 0, idle = 0, iowait = 0, irq = 0, softirq = 0,
               steal = 0, guest = 0, guest_nice = 0\<rparr>"


section \<open>Reading text\<close>

text \<open>
  The classification of characters in the C locale, the splitting of a line into the
  tokens that \<^verbatim>\<open>while (ss >> token)\<close> delivers, and the conversions \<^verbatim>\<open>stoull\<close> and
  \<^verbatim>\<open>stol\<close>, which throw \<^verbatim>\<open>std::invalid_argument\<close> when no digit is found and
  \<^verbatim>\<open>std::out_of_range\<close> when the number does not fit. Nothing in the program catches
  these exceptions: one of them ends the program.
\<close>

datatype error = InvalidArgument | OutOfRange

definition NUL :: char where
  "NUL = CHR 0x00"

definition NL :: char where
  "NL = CHR 0x0A"

definition isspace :: "char \<Rightarrow> bool" where
  "isspace c \<longleftrightarrow> c = CHR '' '' \<or> c = CHR 0x09 \<or> c = CHR 0x0A \<or> c = CHR 0x0B
                 \<or> c = CHR 0x0C \<or> c = CHR 0x0D"

definition isdigit :: "char \<Rightarrow> bool" where
  "isdigit c \<longleftrightarrow> 48 \<le> (of_char c :: nat) \<and> (of_char c :: nat) \<le> 57"

definition digit_val :: "char \<Rightarrow> nat" where
  "digit_val c = of_char c - 48"

fun digits_val :: "nat \<Rightarrow> string \<Rightarrow> nat" where
  "digits_val acc [] = acc"
| "digits_val acc (c # cs) = digits_val (acc * 10 + digit_val c) cs"

text \<open>\<open>split_ws cur s\<close>: the tokens of \<open>s\<close>, where \<open>cur\<close> is the token being read.\<close>

fun split_ws :: "string \<Rightarrow> string \<Rightarrow> string list" where
  "split_ws cur [] = (if cur = [] then [] else [cur])"
| "split_ws cur (c # cs) =
     (if isspace c then (if cur = [] then split_ws [] cs else cur # split_ws [] cs)
      else split_ws (cur @ [c]) cs)"

definition tokens :: "string \<Rightarrow> string list" where
  "tokens s = split_ws [] s"

text \<open>\<^verbatim>\<open>getline(f, s)\<close> and \<^verbatim>\<open>getline(f, s, '\0')\<close> on the content of a file just opened.\<close>

definition first_line :: "string \<Rightarrow> string" where
  "first_line content = takeWhile (\<lambda>c. c \<noteq> NL) content"

definition upto_nul :: "string \<Rightarrow> string" where
  "upto_nul content = takeWhile (\<lambda>c. c \<noteq> NUL) content"

text \<open>The sign and the digits that \<^verbatim>\<open>strtoull\<close> and \<^verbatim>\<open>strtol\<close> read in base 10.\<close>

definition sign_digits :: "string \<Rightarrow> bool \<times> string" where
  "sign_digits s =
     (let s1 = dropWhile isspace s in
      case s1 of
        [] \<Rightarrow> (False, [])
      | c # cs \<Rightarrow>
          if c = CHR ''-'' then (True, takeWhile isdigit cs)
          else if c = CHR ''+'' then (False, takeWhile isdigit cs)
          else (False, takeWhile isdigit s1))"

definition stoull :: "string \<Rightarrow> error + u64" where
  "stoull s =
     (case sign_digits s of (neg, ds) \<Rightarrow>
        if ds = [] then Inl InvalidArgument
        else if digits_val 0 ds \<ge> 2 ^ 64 then Inl OutOfRange
        else Inr (if neg then - word_of_nat (digits_val 0 ds) else word_of_nat (digits_val 0 ds)))"

definition stol :: "string \<Rightarrow> error + int" where
  "stol s =
     (case sign_digits s of (neg, ds) \<Rightarrow>
        if ds = [] then Inl InvalidArgument
        else let v = (if neg then - int (digits_val 0 ds) else int (digits_val 0 ds)) in
          if v < - (2 ^ 63) \<or> v > 2 ^ 63 - 1 then Inl OutOfRange else Inr v)"

text \<open>
  \<^verbatim>\<open>ss >> label >> val\<close> on a line that starts with its label, for an
  \<^verbatim>\<open>unsigned long long val\<close>. When the line ends after the label nothing is stored and
  \<open>val\<close> keeps the content \<open>uninit\<close> it had before, which the program never set. Otherwise the
  extraction stores 0 when no digit is found and the largest value on overflow.
\<close>

definition num_get_ull :: "string \<Rightarrow> u64" where
  "num_get_ull s =
     (case sign_digits s of (neg, ds) \<Rightarrow>
        if ds = [] then 0
        else if digits_val 0 ds \<ge> 2 ^ 64 then - 1
        else if neg then - word_of_nat (digits_val 0 ds) else word_of_nat (digits_val 0 ds))"

definition extract_val :: "u64 \<Rightarrow> string \<Rightarrow> u64" where
  "extract_val uninit line =
     (let rest = dropWhile isspace (dropWhile (\<lambda>c. \<not> isspace c) (dropWhile isspace line)) in
      if rest = [] then uninit else num_get_ull rest)"

definition starts_with :: "string \<Rightarrow> string \<Rightarrow> bool" where
  "starts_with label line \<longleftrightarrow> take (length label) line = label"

section \<open>Memory summary\<close>

fun read_total_memory_kb :: "u64 \<Rightarrow> string list \<Rightarrow> u64" where
  "read_total_memory_kb uninit [] = 0"
| "read_total_memory_kb uninit (line # ls) =
     (if starts_with ''MemTotal:'' line then extract_val uninit line
      else read_total_memory_kb uninit ls)"

text \<open>
  The loop of lines 235-247 over the lines of \<^verbatim>\<open>/proc/meminfo\<close>; the pair is
  \<open>(mem_free, mem_available)\<close>, both 0 before the loop.
\<close>

fun scan_meminfo :: "u64 \<Rightarrow> string list \<Rightarrow> u64 \<times> u64 \<Rightarrow> u64 \<times> u64" where
  "scan_meminfo uninit [] acc = acc"
| "scan_meminfo uninit (line # ls) (mem_free, mem_available) =
     (if starts_with ''MemAvailable:'' line
      then scan_meminfo uninit ls (mem_free, extract_val uninit line)
      else if starts_with ''MemFree:'' line
      then scan_meminfo uninit ls (extract_val uninit line, mem_available)
      else scan_meminfo uninit ls (mem_free, mem_available))"

definition mem_used_of :: "u64 \<Rightarrow> u64 \<Rightarrow> u64 \<Rightarrow> u64" where
  "mem_used_of mem_total mem_available mem_free =
     (if mem_total > mem_available then mem_total - mem_available else mem_total - mem_free)"

definition mem_used :: "u64 \<Rightarrow> u64 \<Rightarrow> string list \<Rightarrow> u64" where
  "mem_used mem_total uninit meminfo =
     (case scan_meminfo uninit meminfo (0, 0) of
        (mem_free, mem_available) \<Rightarrow> mem_used_of mem_total mem_available mem_free)"

section \<open>Processes\<close>

text \<open>
  \<open>rss\<close> is an \<^verbatim>\<open>unsigned long\<close>, 64 bits wide on Linux. The files of one process directory
  are the input of \<open>read_proc\<close>: \<open>None\<close> is a file that could not be opened. The field
  \<open>owner\<close> is the source's \<^verbatim>\<open>user\<close> (the name \<open>user\<close> is a counter of \<open>CpuSnapshot\<close>); its
  content comes from the status file and the password database and is taken as read.
\<close>

record ProcSnapshot =
  pid :: int
  owner :: string
  cmd :: string
  utime :: u64
  stime :: u64
  rss :: u64
  cpu_percent :: real
  mem_percent :: real

definition total_time :: "ProcSnapshot \<Rightarrow> u64" where
  "total_time p = utime p + stime p"

record ProcFiles =
  cmdline_file :: "string option"
  comm_file :: "string option"
  stat_file :: "string option"
  status_user :: string

definition read_cmd :: "ProcFiles \<Rightarrow> string" where
  "read_cmd files =
     (case cmdline_file files of
        None \<Rightarrow> []
      | Some content \<Rightarrow>
          let cmd = upto_nul content;
              cmd = (if cmd = [] then (case comm_file files of None \<Rightarrow> cmd
                                       | Some comm \<Rightarrow> first_line comm)
                     else cmd)
          in map (\<lambda>c. if c = NUL then CHR '' '' else c) cmd)"

text \<open>
  \<open>page_size_kb\<close> is \<^verbatim>\<open>sysconf(_SC_PAGESIZE) / 1024\<close>. The product of the two \<^verbatim>\<open>long\<close> values
  is stored into the unsigned \<open>rss\<close>.
\<close>

definition read_proc :: "int \<Rightarrow> int \<Rightarrow> ProcFiles \<Rightarrow> error + ProcSnapshot" where
  "read_proc page_size_kb pid' files =
     (let p = \<lparr>pid = pid', owner = [], cmd = read_cmd files, utime = 0, stime = 0, rss = 0,
               cpu_percent = 0, mem_percent = 0\<rparr>
      in case stat_file files of
        None \<Rightarrow> Inr (p\<lparr>owner := status_user files\<rparr>)
      | Some content \<Rightarrow>
          let fields = tokens (first_line content) in
          if length fields \<ge> 24 then
            (case stoull (fields ! 13) of
               Inl e \<Rightarrow> Inl e
             | Inr utime' \<Rightarrow>
                 (case stoull (fields ! 14) of
                    Inl e \<Rightarrow> Inl e
                  | Inr stime' \<Rightarrow>
                      (case stol (fields ! 23) of
                         Inl e \<Rightarrow> Inl e
                       | Inr rss_pages \<Rightarrow>
                           Inr (p\<lparr>utime := utime', stime := stime',
                                  rss := word_of_int (rss_pages * page_size_kb),
                                  owner := status_user files\<rparr>))))
          else Inr (p\<lparr>owner := status_user files\<rparr>))"


section \<open>One tick of the main loop\<close>

text \<open>Lines 258-275: the percentages of one process against the previous mapping.\<close>

definition cpu_pct :: "(int \<rightharpoonup> ProcSnapshot) \<Rightarrow> u64 \<Rightarrow> ProcSnapshot \<Rightarrow> real" where
  "cpu_pct prev_procs tot_diff' cur =
     (case prev_procs (pid cur) of
        None \<Rightarrow> 0
      | Some prev \<Rightarrow>
          let prev_total_time = total_time prev;
              cur_total_time = total_time cur;
              proc_time_diff = (if cur_total_time \<ge> prev_total_time
                                then cur_total_time - prev_total_time else 0)
          in if tot_diff' > 0
             then 100 * real (unat proc_time_diff) / real (unat tot_diff')
             else 0)"

definition mem_pct :: "u64 \<Rightarrow> ProcSnapshot \<Rightarrow> real" where
  "mem_pct mem_total cur =
     (if mem_total > 0 then 100 * real (unat (rss cur)) / real (unat mem_total) else 0)"

definition derive_row :: "(int \<rightharpoonup> ProcSnapshot) \<Rightarrow> u64 \<Rightarrow> u64 \<Rightarrow> ProcSnapshot \<Rightarrow> ProcSnapshot" where
  "derive_row prev_procs tot_diff' mem_total cur =
     cur\<lparr>cpu_percent := cpu_pct prev_procs tot_diff' cur, mem_percent := mem_pct mem_total cur\<rparr>"

text \<open>
  The loop over the process directories (lines 256-277). An exception of \<open>read_proc\<close>
  leaves the loop and the program.
\<close>

fun sample_procs ::
  "int \<Rightarrow> (int \<rightharpoonup> ProcSnapshot) \<Rightarrow> u64 \<Rightarrow> u64 \<Rightarrow> (int \<times> ProcFiles) list
   \<Rightarrow> error + ProcSnapshot list" where
  "sample_procs page_size_kb prev_procs tot_diff' mem_total [] = Inr []"
| "sample_procs page_size_kb prev_procs tot_diff' mem_total ((pid', files) # rest) =
     (case read_proc page_size_kb pid' files of
        Inl e \<Rightarrow> Inl e
      | Inr cur \<Rightarrow>
          (case sample_procs page_size_kb prev_procs tot_diff' mem_total rest of
             Inl e \<Rightarrow> Inl e
           | Inr procs \<Rightarrow> Inr (derive_row prev_procs tot_diff' mem_total cur # procs)))"

text \<open>Lines 280-281: the mapping is cleared and refilled from the rows of this tick.\<close>

definition update_prev :: "ProcSnapshot list \<Rightarrow> (int \<rightharpoonup> ProcSnapshot)" where
  "update_prev procs = fold (\<lambda>p m. m(pid p \<mapsto> p)) procs Map.empty"

record SessionState =
  prev_cpu :: CpuSnapshot
  prev_procs :: "int \<rightharpoonup> ProcSnapshot"
  sort_by_cpu :: bool
  total_mem_kb_cache :: u64

text \<open>
  What one tick reads: the snapshot \<open>read_cpu_line\<close> returns, the lines of
  \<^verbatim>\<open>/proc/meminfo\<close>, the process ids of \<open>list_pids\<close> in directory order, each with its
  files, and the height of the terminal.
\<close>

record TickInput =
  cur_cpu :: CpuSnapshot
  meminfo :: "string list"
  uninit_val :: u64
  proc_dirs :: "(int \<times> ProcFiles) list"
  LINES :: int

record TickView =
  view_cpu_usage :: real
  view_mem_total :: u64
  view_mem_used :: u64
  view_procs :: "ProcSnapshot list"

definition tick :: "int \<Rightarrow> SessionState \<Rightarrow> TickInput \<Rightarrow> error + (TickView \<times> SessionState)" where
  "tick page_size_kb st inp =
     (let tot_diff' = tot_diff (prev_cpu st) (cur_cpu inp);
          cpu_usage' = cpu_usage (prev_cpu st) (cur_cpu inp);
          mem_total = total_mem_kb_cache st;
          mem_used' = mem_used mem_total (uninit_val inp) (meminfo inp)
      in case sample_procs page_size_kb (prev_procs st) tot_diff' mem_total (proc_dirs inp) of
           Inl e \<Rightarrow> Inl e
         | Inr procs \<Rightarrow>
             Inr (\<lparr>view_cpu_usage = cpu_usage', view_mem_total = mem_total,
                   view_mem_used = mem_used', view_procs = procs\<rparr>,
                  st\<lparr>prev_procs := update_prev procs, prev_cpu := cur_cpu inp\<rparr>))"

section \<open>Ranking and rendering\<close>

text \<open>The two comparators of lines 286-294.\<close>

definition cpu_less :: "ProcSnapshot \<Rightarrow> ProcSnapshot \<Rightarrow> bool" where
  "cpu_less a b =
     (if cpu_percent a = cpu_percent b then mem_percent a > mem_percent b
      else cpu_percent a > cpu_percent b)"

definition mem_less :: "ProcSnapshot \<Rightarrow> ProcSnapshot \<Rightarrow> bool" where
  "mem_less a b =
     (if mem_percent a = mem_percent b then cpu_percent a > cpu_percent b
      else mem_percent a > mem_percent b)"

definition comparator :: "bool \<Rightarrow> ProcSnapshot \<Rightarrow> ProcSnapshot \<Rightarrow> bool" where
  "comparator by_cpu = (if by_cpu then cpu_less else mem_less)"

text \<open>
  \<^verbatim>\<open>std::sort\<close> is specified by its result, not by an algorithm: the range holds the same
  elements as before, and no element is followed by one that the comparator puts before it.
  Elements that the comparator does not separate may come out in any order.
\<close>

definition std_sort_post :: "('a \<Rightarrow> 'a \<Rightarrow> bool) \<Rightarrow> 'a list \<Rightarrow> 'a list \<Rightarrow> bool" where
  "std_sort_post cmp xs ys \<longleftrightarrow> mset ys = mset xs \<and> sorted_wrt (\<lambda>a b. \<not> cmp b a) ys"

text \<open>
  The algorithm that libstdc++ runs on a range of at most 16 elements is insertion sort:
  each element moves left past the elements that the comparator puts after it. The sorted
  prefix is kept in reverse.
\<close>

fun linear_insert :: "('a \<Rightarrow> 'a \<Rightarrow> bool) \<Rightarrow> 'a \<Rightarrow> 'a list \<Rightarrow> 'a list" where
  "linear_insert cmp v [] = [v]"
| "linear_insert cmp v (e # es) =
     (if cmp v e then e # linear_insert cmp v es else v # e # es)"

definition insertion_sort :: "('a \<Rightarrow> 'a \<Rightarrow> bool) \<Rightarrow> 'a list \<Rightarrow> 'a list" where
  "insertion_sort cmp xs = rev (foldl (\<lambda>acc v. linear_insert cmp v acc) [] xs)"

text \<open>The two keys of a row in the order of the active comparator.\<close>

definition rank_key :: "bool \<Rightarrow> ProcSnapshot \<Rightarrow> real \<times> real" where
  "rank_key by_cpu p =
     (if by_cpu then (cpu_percent p, mem_percent p) else (mem_percent p, cpu_percent p))"

text \<open>
  \<open>ranks_before by_cpu a b\<close>: row \<open>a\<close> is larger than \<open>b\<close> in the primary key, or equal in
  it and at least \<open>b\<close> in the secondary key.
\<close>

definition ranks_before :: "bool \<Rightarrow> ProcSnapshot \<Rightarrow> ProcSnapshot \<Rightarrow> bool" where
  "ranks_before by_cpu a b \<longleftrightarrow>
     fst (rank_key by_cpu a) > fst (rank_key by_cpu b)
     \<or> (fst (rank_key by_cpu a) = fst (rank_key by_cpu b)
        \<and> snd (rank_key by_cpu a) \<ge> snd (rank_key by_cpu b))"

text \<open>
  Lines 306-312. \<open>max_rows\<close> is an \<^verbatim>\<open>int\<close>; the loop compares the index with
  \<^verbatim>\<open>(size_t)max_rows\<close>, the value of \<open>max_rows\<close> modulo \<open>2 ^ 64\<close>. Row \<open>i\<close> is printed at
  screen line \<open>3 + i\<close>, and the terminal library shows it when that line exists. The footer
  of line 313 is printed afterwards at line \<open>LINES - 3\<close>, over the row of that line.
\<close>

definition max_rows :: "int \<Rightarrow> int" where
  "max_rows lines = lines - 5"

definition size_t_of :: "int \<Rightarrow> nat" where
  "size_t_of i = nat (i mod 2 ^ 64)"

definition drawn_rows :: "int \<Rightarrow> ProcSnapshot list \<Rightarrow> (int \<times> ProcSnapshot) list" where
  "drawn_rows lines procs =
     (let n = min (length procs) (size_t_of (max_rows lines))
      in zip (map (\<lambda>i. 3 + int i) [0 ..< n]) (take n procs))"

definition on_screen :: "int \<Rightarrow> (int \<times> ProcSnapshot) list \<Rightarrow> (int \<times> ProcSnapshot) list" where
  "on_screen lines rows = filter (\<lambda>(y, p). 0 \<le> y \<and> y < lines \<and> y \<noteq> lines - 3) rows"

section \<open>The parsers as the specification words them\<close>

text \<open>
  The specification asks for the stat fields to be counted from the last \<^verbatim>\<open>)\<close> of the
  line: the token after it is field 3, so fields 14, 15 and 24 are the tokens 11, 12 and 21
  of the tail.
\<close>

definition spec_stat_tail :: "string \<Rightarrow> string list" where
  "spec_stat_tail line = tokens (rev (takeWhile (\<lambda>c. c \<noteq> CHR '')'') (rev line)))"

definition spec_stat_fields :: "string \<Rightarrow> (string \<times> string \<times> string) option" where
  "spec_stat_fields line =
     (let tail = spec_stat_tail line in
      if length tail \<ge> 22 then Some (tail ! 11, tail ! 12, tail ! 21) else None)"

text \<open>The arguments of a command line, each ended by a NUL, joined by single spaces.\<close>

fun split_nul :: "string \<Rightarrow> string \<Rightarrow> string list" where
  "split_nul cur [] = (if cur = [] then [] else [cur])"
| "split_nul cur (c # cs) = (if c = NUL then cur # split_nul [] cs else split_nul (cur @ [c]) cs)"

fun join_spaces :: "string list \<Rightarrow> string" where
  "join_spaces [] = []"
| "join_spaces [a] = a"
| "join_spaces (a # b # rest) = a @ CHR '' '' # join_spaces (b # rest)"

definition spec_cmdline :: "string \<Rightarrow> string" where
  "spec_cmdline content = join_spaces (split_nul [] content)"


section \<open>Example inputs\<close>

text \<open>Scenario A of the specification: 1000 ticks pass, 900 of them idle.\<close>

definition scenario_A_prev :: CpuSnapshot where
  "scenario_A_prev = zero_cpu\<lparr>user := 100, idle := 900\<rparr>"

definition scenario_A_cur :: CpuSnapshot where
  "scenario_A_cur = zero_cpu\<lparr>user := 200, idle := 1800\<rparr>"

text \<open>A snapshot whose ten counters sum to \<open>2 ^ 64 + 1\<close>.\<close>

definition wrapped_cur :: CpuSnapshot where
  "wrapped_cur = zero_cpu\<lparr>user := 2, idle := 18446744073709551615\<rparr>"

text \<open>A snapshot with no idle time, whose sum is below \<open>2 ^ 53\<close>.\<close>

definition rounded_cur :: CpuSnapshot where
  "rounded_cur = zero_cpu\<lparr>user := 5764607523034237\<rparr>"


text \<open>
  Scenarios B, C and D of the specification in one tick: process 42 was seen before with
  \<open>utime = 10\<close> and \<open>stime = 5\<close> and now has 20 and 15, process 77 was seen before and its
  directory is gone, process 101 is new. A page is 4 kB.
\<close>

definition stat_line_42 :: string where
  "stat_line_42 =
     ''42 (worker) S 1 42 42 0 -1 4194304 100 0 0 0 20 15 0 0 20 0 1 0 5000 1000000 12500 18446744073709551615''"

definition stat_line_101 :: string where
  "stat_line_101 =
     ''101 (sh) R 1 101 101 0 -1 4194304 5 0 0 0 7 3 0 0 20 0 1 0 6000 200000 250 18446744073709551615''"

definition files_42 :: ProcFiles where
  "files_42 = \<lparr>cmdline_file = Some (''worker'' @ [NUL]), comm_file = Some (''worker'' @ [NL]),
               stat_file = Some (stat_line_42 @ [NL]), status_user = ''alice''\<rparr>"

definition files_101 :: ProcFiles where
  "files_101 = \<lparr>cmdline_file = Some (''sh'' @ [NUL]), comm_file = Some (''sh'' @ [NL]),
                stat_file = Some (stat_line_101 @ [NL]), status_user = ''bob''\<rparr>"

definition prev_42 :: ProcSnapshot where
  "prev_42 = \<lparr>pid = 42, owner = ''alice'', cmd = ''worker'', utime = 10, stime = 5,
              rss = 50000, cpu_percent = 0, mem_percent = 5\<rparr>"

definition prev_77 :: ProcSnapshot where
  "prev_77 = \<lparr>pid = 77, owner = ''bob'', cmd = ''sleep'', utime = 1, stime = 1,
              rss = 400, cpu_percent = 0, mem_percent = 1 / 25\<rparr>"

definition row_42 :: ProcSnapshot where
  "row_42 = \<lparr>pid = 42, owner = ''alice'', cmd = ''worker'', utime = 20, stime = 15,
             rss = 50000, cpu_percent = 2, mem_percent = 5\<rparr>"

definition row_101 :: ProcSnapshot where
  "row_101 = \<lparr>pid = 101, owner = ''bob'', cmd = ''sh'', utime = 7, stime = 3,
              rss = 1000, cpu_percent = 0, mem_percent = 1 / 10\<rparr>"

definition scenario_state :: SessionState where
  "scenario_state = \<lparr>prev_cpu = scenario_A_prev, prev_procs = [42 \<mapsto> prev_42, 77 \<mapsto> prev_77],
                     sort_by_cpu = True, total_mem_kb_cache = 1000000\<rparr>"

definition scenario_meminfo :: "string list" where
  "scenario_meminfo = [''MemTotal:        1000000 kB'', ''MemFree:          300000 kB'',
                       ''MemAvailable:     600000 kB'', ''Buffers:           10000 kB'']"

definition scenario_input :: TickInput where
  "scenario_input = \<lparr>cur_cpu = scenario_A_cur, meminfo = scenario_meminfo, uninit_val = 0,
                     proc_dirs = [(42, files_42), (101, files_101)], LINES = 24\<rparr>"

definition scenario_view :: TickView where
  "scenario_view = \<lparr>view_cpu_usage = 10, view_mem_total = 1000000, view_mem_used = 400000,
                    view_procs = [row_42, row_101]\<rparr>"

definition scenario_state' :: SessionState where
  "scenario_state' = \<lparr>prev_cpu = scenario_A_cur, prev_procs = [42 \<mapsto> row_42, 101 \<mapsto> row_101],
                      sort_by_cpu = True, total_mem_kb_cache = 1000000\<rparr>"

text \<open>A tick that finds one process, whose stat line stops after four tokens.\<close>

definition files_7 :: ProcFiles where
  "files_7 = \<lparr>cmdline_file = Some (''cat'' @ [NUL]), comm_file = Some (''cat'' @ [NL]),
              stat_file = Some ''7 (cat) S 1'', status_user = ''alice''\<rparr>"

definition row_7 :: ProcSnapshot where
  "row_7 = \<lparr>pid = 7, owner = ''alice'', cmd = ''cat'', utime = 0, stime = 0, rss = 0,
            cpu_percent = 0, mem_percent = 0\<rparr>"

definition short_input :: TickInput where
  "short_input = scenario_input\<lparr>proc_dirs := [(7, files_7)]\<rparr>"

definition short_view :: TickView where
  "short_view = scenario_view\<lparr>view_procs := [row_7]\<rparr>"

definition short_state' :: SessionState where
  "short_state' = scenario_state'\<lparr>prev_procs := [7 \<mapsto> row_7]\<rparr>"

text \<open>The stat line of a process whose command holds spaces and a closing parenthesis:
  \<open>utime\<close> is 77, \<open>stime\<close> is 88 and the resident set is 321 pages.\<close>

definition weird_stat_line :: string where
  "weird_stat_line =
     ''1234 (weird ) name) S 1 1234 1234 0 -1 4194304 100 200 3 4 77 88 5 6 20 0 1 0 5000 1000000 321 18446744073709551615 1 2''"

definition weird_files :: ProcFiles where
  "weird_files = \<lparr>cmdline_file = Some (''weird ) name'' @ [NUL]), comm_file = Some (''weird ) name'' @ [NL]),
                  stat_file = Some (weird_stat_line @ [NL]), status_user = ''root''\<rparr>"

text \<open>The command line of \<^verbatim>\<open>ls -la\<close>: two arguments, each ended by a NUL.\<close>

definition ls_cmdline :: string where
  "ls_cmdline = ''ls'' @ [NUL] @ ''-la'' @ [NUL]"

definition ls_files :: ProcFiles where
  "ls_files = \<lparr>cmdline_file = Some ls_cmdline, comm_file = Some (''ls'' @ [NL]),
               stat_file = None, status_user = ''root''\<rparr>"

text \<open>Scenario E of the specification, and two rows that agree in both percentages.\<close>

definition row_e9 :: ProcSnapshot where
  "row_e9 = \<lparr>pid = 9, owner = ''alice'', cmd = ''a'', utime = 0, stime = 0, rss = 0,
             cpu_percent = 4, mem_percent = 2\<rparr>"

definition row_e100 :: ProcSnapshot where
  "row_e100 = \<lparr>pid = 100, owner = ''alice'', cmd = ''b'', utime = 0, stime = 0, rss = 0,
               cpu_percent = 4, mem_percent = 3\<rparr>"

definition row_e5 :: ProcSnapshot where
  "row_e5 = \<lparr>pid = 5, owner = ''alice'', cmd = ''c'', utime = 0, stime = 0, rss = 0,
             cpu_percent = 4, mem_percent = 2\<rparr>"

text \<open>A memory summary without a \<^verbatim>\<open>MemAvailable\<close> line, as older kernels print it.\<close>

definition old_meminfo :: "string list" where
  "old_meminfo = [''MemTotal:        1000 kB'', ''MemFree:          300 kB'']"

text \<open>A tick after \<^verbatim>\<open>MemTotal\<close> was read as 0, with no process directory.\<close>

definition zero_total_state :: SessionState where
  "zero_total_state = scenario_state\<lparr>total_mem_kb_cache := 0\<rparr>"

definition zero_total_input :: TickInput where
  "zero_total_input = scenario_input\<lparr>proc_dirs := []\<rparr>"

definition zero_total_view :: TickView where
  "zero_total_view = \<lparr>view_cpu_usage = 10, view_mem_total = 0,
                      view_mem_used = 18446744073709251616, view_procs = []\<rparr>"

section \<open>Rounding to a double\<close>

lemma binade_eq: 
  assumes "0 < x" "2 powi e \<le> x" "x < 2 powi (e + 1)" shows "binade x = e"
proof -
  have "(2::real) powr real_of_int e = 2 powi e" "(2::real) powr (real_of_int e + 1) = 2 powi (e + 1)"
    using powr_real_of_int'[of "2::real" e] powr_real_of_int'[of "2::real" "e + 1"] by simp_all
  then show ?thesis
    unfolding binade_def using assms by (simp add: floor_log_eq_powr_iff)
qed

lemma binade_bounds:
  assumes "0 < x" shows "2 powi binade x \<le> x" "x < 2 powi (binade x + 1)"
proof -
  have "(2::real) powr real_of_int (binade x) = 2 powi binade x" 
       "(2::real) powr (real_of_int (binade x) + 1) = 2 powi (binade x + 1)"
    using powr_real_of_int'[of "2::real" "binade x"] powr_real_of_int'[of "2::real" "binade x + 1"] by simp_all
  moreover have "2 powr real_of_int (binade x) \<le> x \<and> x < 2 powr (real_of_int (binade x) + 1)"
    using floor_log_eq_powr_iff[of x 2 "binade x"] assms by (simp add: binade_def)
  ultimately show "2 powi binade x \<le> x" "x < 2 powi (binade x + 1)" by simp_all
qed

lemma fl_binade:
  "0 < x \<Longrightarrow> 2 powi e \<le> x \<Longrightarrow> x < 2 powi (e + 1) \<Longrightarrow>
   fl x = of_int (rne (x / 2 powi (e - 52))) * 2 powi (e - 52)"
  by (simp add: fl_def binade_eq)


lemma rne_of_int: "rne (of_int n) = n"
  by (simp add: rne_def)

lemma rne_floor_bounds: "\<lfloor>y\<rfloor> \<le> rne y" "rne y \<le> \<lfloor>y\<rfloor> + 1"
  by (simp_all add: rne_def Let_def)

lemma rne_mono: assumes "x \<le> y" shows "rne x \<le> rne y"
proof (cases "\<lfloor>x\<rfloor> = \<lfloor>y\<rfloor>")
  case True
  have "x - of_int \<lfloor>y\<rfloor> \<le> y - of_int \<lfloor>y\<rfloor>" using assms by simp
  then show ?thesis unfolding rne_def Let_def True by auto
next
  case False
  then have "\<lfloor>x\<rfloor> < \<lfloor>y\<rfloor>" using floor_mono[OF assms] by simp
  then have "rne x \<le> \<lfloor>y\<rfloor>" using rne_floor_bounds(2)[of x] by simp
  then show ?thesis using rne_floor_bounds(1)[of y] by simp
qed

lemma rne_upper: "of_int (rne y) \<le> y + 1 / 2"
proof (cases "y - of_int \<lfloor>y\<rfloor> < 1 / 2")
  case True
  then have "rne y = \<lfloor>y\<rfloor>" by (simp add: rne_def)
  moreover have "real_of_int \<lfloor>y\<rfloor> \<le> y" by (rule of_int_floor_le)
  ultimately show ?thesis by linarith
next
  case False
  have "real_of_int (rne y) \<le> of_int (\<lfloor>y\<rfloor> + 1)"
    using rne_floor_bounds(2)[of y] by (simp only: of_int_le_iff)
  with False show ?thesis by simp
qed

lemma fl_pos_eq:
  "0 < x \<Longrightarrow> fl x = of_int (rne (x / 2 powi (binade x - 52))) * 2 powi (binade x - 52)"
  by (simp add: fl_def)

lemma scaled_bounds:
  assumes "0 < x"
  shows "2 ^ 52 \<le> x / 2 powi (binade x - 52)" "x / 2 powi (binade x - 52) < 2 ^ 53"
proof -
  define k :: real where "k = 2 ^ 52"
  have k: "0 < k" by (simp add: k_def)
  have u: "(2::real) powi (binade x - 52) = 2 powi binade x / k"
    by (simp add: power_int_diff k_def)
  have s: "x / 2 powi (binade x - 52) = x / 2 powi binade x * k" unfolding u by simp
  have lo: "1 \<le> x / 2 powi binade x" using binade_bounds(1)[OF assms] by simp
  have hi: "x / 2 powi binade x < 2"
    using binade_bounds(2)[OF assms] by (simp add: power_int_add divide_less_eq)
  have "1 * k \<le> x / 2 powi binade x * k" using lo k by (intro mult_right_mono) simp_all
  then show "2 ^ 52 \<le> x / 2 powi (binade x - 52)" unfolding s by (simp add: k_def)
  have "x / 2 powi binade x * k < 2 * k" using hi k by (intro mult_strict_right_mono)
  then show "x / 2 powi (binade x - 52) < 2 ^ 53" unfolding s by (simp add: k_def)
qed

lemma fl_range:
  assumes "0 < x"
  shows "2 powi binade x \<le> fl x" "fl x \<le> 2 powi (binade x + 1)"
proof -
  let ?u = "(2::real) powi (binade x - 52)"
  have upos: "0 \<le> ?u" by simp
  have "rne (of_int (2 ^ 52)) \<le> rne (x / ?u)"
    using scaled_bounds(1)[OF assms] by (intro rne_mono) simp
  then have "(2::int) ^ 52 \<le> rne (x / ?u)" unfolding rne_of_int .
  then have "real_of_int (2 ^ 52) \<le> real_of_int (rne (x / ?u))" by (simp only: of_int_le_iff)
  then have lo: "real_of_int (2 ^ 52) * ?u \<le> real_of_int (rne (x / ?u)) * ?u"
    using upos by (rule mult_right_mono)
  have "rne (x / ?u) \<le> rne (of_int (2 ^ 53))"
    using scaled_bounds(2)[OF assms] by (intro rne_mono) simp
  then have "rne (x / ?u) \<le> (2::int) ^ 53" unfolding rne_of_int .
  then have "real_of_int (rne (x / ?u)) \<le> real_of_int (2 ^ 53)" by (simp only: of_int_le_iff)
  then have hi: "real_of_int (rne (x / ?u)) * ?u \<le> real_of_int (2 ^ 53) * ?u"
    using upos by (rule mult_right_mono)
  have e1: "(2::real) powi binade x = real_of_int (2 ^ 52) * ?u" by (simp add: power_int_diff)
  have e2: "(2::real) powi (binade x + 1) = real_of_int (2 ^ 53) * ?u"
    by (simp add: power_int_diff power_int_add)
  show "2 powi binade x \<le> fl x" using lo unfolding e1 fl_pos_eq[OF assms] .
  show "fl x \<le> 2 powi (binade x + 1)" using hi unfolding e2 fl_pos_eq[OF assms] .
qed

lemma fl_nonneg: "0 \<le> x \<Longrightarrow> 0 \<le> fl x"
proof (cases "x = 0")
  case True then show ?thesis by (simp add: fl_def)
next
  case False
  assume "0 \<le> x"
  with False have p: "0 < x" by simp
  have "(0::real) < 2 powi binade x" by simp
  with fl_range(1)[OF p] show ?thesis by linarith
qed

lemma fl_pos: "0 < x \<Longrightarrow> 0 < fl x"
proof -
  assume p: "0 < x"
  have "(0::real) < 2 powi binade x" by simp
  with fl_range(1)[OF p] show ?thesis by linarith
qed

lemma binade_mono: assumes "0 < x" "x \<le> y" shows "binade x \<le> binade y"
  unfolding binade_def using assms by (intro floor_mono) simp

lemma fl_mono:
  assumes "0 \<le> x" "x \<le> y" shows "fl x \<le> fl y"
proof (cases "x = 0")
  case True
  then show ?thesis using fl_nonneg[of y] assms by (simp add: fl_def)
next
  case False
  with assms have px: "0 < x" and py: "0 < y" by simp_all
  show ?thesis
  proof (cases "binade x = binade y")
    case True
    let ?u = "(2::real) powi (binade y - 52)"
    have "x / ?u \<le> y / ?u" using assms(2) by (simp add: divide_right_mono)
    then have "rne (x / ?u) \<le> rne (y / ?u)" by (rule rne_mono)
    then have "real_of_int (rne (x / ?u)) * ?u \<le> real_of_int (rne (y / ?u)) * ?u"
      by (intro mult_right_mono) simp_all
    then show ?thesis unfolding fl_pos_eq[OF px] fl_pos_eq[OF py] True .
  next
    case False
    then have "binade x + 1 \<le> binade y" using binade_mono[OF px assms(2)] by simp
    then have "(2::real) powi (binade x + 1) \<le> 2 powi binade y"
      by (intro power_int_increasing) simp_all
    with fl_range(2)[OF px] fl_range(1)[OF py] show ?thesis by linarith
  qed
qed

lemma fl_upper: assumes "0 < y" shows "fl y \<le> y * (1 + 1 / 2 ^ 53)"
proof -
  let ?u = "(2::real) powi (binade y - 52)"
  have upos: "0 < ?u" by simp
  have "of_int (rne (y / ?u)) * ?u \<le> (y / ?u + 1 / 2) * ?u"
    using rne_upper[of "y / ?u"] upos by (intro mult_right_mono) simp_all
  also have "\<dots> = y + ?u / 2" by (simp add: field_simps)
  also have "?u / 2 = 2 powi binade y / 2 ^ 53" by (simp add: power_int_diff)
  also have "\<dots> \<le> y / 2 ^ 53" using binade_bounds(1)[OF assms] by (simp add: divide_right_mono)
  finally have "fl y \<le> y + y / 2 ^ 53" unfolding fl_pos_eq[OF assms] by simp
  then show ?thesis by (simp add: algebra_simps)
qed

lemma fl_hundred_ulp: "fl (100 + 1 / 2 ^ 46) = 100 + 1 / 2 ^ 46"
  by (subst fl_binade[where e=6]) (simp_all add: rne_def)

lemma percent_bound:
  fixes B T :: nat
  assumes "0 < T" "B \<le> T"
  shows "0 \<le> fl (fl (100 * fl (real B)) / fl (real T))"
    and "fl (fl (100 * fl (real B)) / fl (real T)) \<le> 100 + 1 / 2 ^ 46"
proof -
  let ?t = "fl (real T)" and ?b = "fl (real B)"
  have t: "0 < ?t" using assms(1) by (intro fl_pos) simp
  have b0: "0 \<le> ?b" by (intro fl_nonneg) simp
  have bt: "?b \<le> ?t" using assms(2) by (intro fl_mono) simp_all
  have m0: "0 \<le> fl (100 * ?b)" using b0 by (intro fl_nonneg) simp
  have "fl (100 * ?b) \<le> fl (100 * ?t)" using b0 bt by (intro fl_mono) simp_all
  also have "\<dots> \<le> 100 * ?t * (1 + 1 / 2 ^ 53)" using t by (intro fl_upper) simp
  finally have "fl (100 * ?b) / ?t \<le> 100 * ?t * (1 + 1 / 2 ^ 53) / ?t"
    using t by (intro divide_right_mono) simp_all
  also have "\<dots> = 100 * (1 + 1 / 2 ^ 53)" using t by simp
  also have "\<dots> \<le> 100 + 1 / 2 ^ 46" by simp
  finally have q: "fl (100 * ?b) / ?t \<le> 100 + 1 / 2 ^ 46" .
  have q0: "0 \<le> fl (100 * ?b) / ?t" using m0 t by simp
  show "0 \<le> fl (fl (100 * ?b) / ?t)" using q0 by (rule fl_nonneg)
  have "fl (fl (100 * ?b) / ?t) \<le> fl (100 + 1 / 2 ^ 46)" using q0 q by (rule fl_mono)
  then show "fl (fl (100 * ?b) / ?t) \<le> 100 + 1 / 2 ^ 46" unfolding fl_hundred_ulp .
qed


lemma rne_lower: "y - 1 / 2 \<le> of_int (rne y)"
proof (cases "y - of_int \<lfloor>y\<rfloor> \<le> 1 / 2")
  case True
  have "real_of_int \<lfloor>y\<rfloor> \<le> real_of_int (rne y)"
    using rne_floor_bounds(1)[of y] by (simp only: of_int_le_iff)
  with True show ?thesis by linarith
next
  case False
  then have "rne y = \<lfloor>y\<rfloor> + 1" by (simp add: rne_def)
  then have "real_of_int (rne y) = real_of_int \<lfloor>y\<rfloor> + 1" by simp
  moreover have "y < real_of_int \<lfloor>y\<rfloor> + 1" by linarith
  ultimately show ?thesis by linarith
qed

lemma fl_lower: assumes "0 < y" shows "y * (1 - 1 / 2 ^ 53) \<le> fl y"
proof -
  let ?u = "(2::real) powi (binade y - 52)"
  have upos: "0 < ?u" by simp
  have "?u / 2 = 2 powi binade y / 2 ^ 53" by (simp add: power_int_diff)
  also have "\<dots> \<le> y / 2 ^ 53" using binade_bounds(1)[OF assms] by (simp add: divide_right_mono)
  finally have h: "?u / 2 \<le> y / 2 ^ 53" .
  have "(y / ?u - 1 / 2) * ?u \<le> of_int (rne (y / ?u)) * ?u"
    using rne_lower[of "y / ?u"] upos by (intro mult_right_mono) simp_all
  moreover have "(y / ?u - 1 / 2) * ?u = y - ?u / 2" by (simp add: field_simps)
  ultimately have "y - ?u / 2 \<le> fl y" unfolding fl_pos_eq[OF assms] by simp
  with h have "y - y / 2 ^ 53 \<le> fl y" by linarith
  then show ?thesis by (simp add: algebra_simps)
qed

lemma fl_zero: "fl 0 = 0"
  by (simp add: fl_def)

lemma fl_error: assumes "0 \<le> y" shows "y * (1 - 1 / 2 ^ 53) \<le> fl y" "fl y \<le> y * (1 + 1 / 2 ^ 53)"
  using assms fl_lower[of y] fl_upper[of y] by (cases "y = 0"; simp add: fl_zero)+

lemma percent_error:
  fixes B T :: nat
  assumes "0 < T"
  shows "\<bar>fl (fl (100 * fl (real B)) / fl (real T)) - 100 * real B / real T\<bar>
         \<le> 100 * real B / real T / 2 ^ 50"
proof -
  define eps :: real where "eps = 1 / 2 ^ 53"
  have eps: "0 < eps" "eps < 1" by (simp_all add: eps_def)
  let ?t = "fl (real T)" and ?b = "fl (real B)"
  let ?m = "fl (100 * ?b)"
  let ?q = "100 * real B / real T"
  have T: "0 < real T" using assms by simp
  have q0: "0 \<le> ?q" by simp
  have t: "0 < ?t" using T by (rule fl_pos)
  have b0: "0 \<le> ?b" by (intro fl_nonneg) simp
  have m0: "0 \<le> ?m" using b0 by (intro fl_nonneg) simp
  have mt0: "0 \<le> ?m / ?t" using m0 t by simp
  have t_lo: "real T * (1 - eps) \<le> ?t" and t_hi: "?t \<le> real T * (1 + eps)"
    using fl_error[of "real T"] by (simp_all add: eps_def)
  have b_lo: "real B * (1 - eps) \<le> ?b" and b_hi: "?b \<le> real B * (1 + eps)"
    using fl_error[of "real B"] by (simp_all add: eps_def)
  have "?m \<le> 100 * ?b * (1 + eps)" using fl_error(2)[of "100 * ?b"] b0 by (simp add: eps_def)
  also have "\<dots> \<le> 100 * (real B * (1 + eps)) * (1 + eps)"
    using b_hi eps by (intro mult_right_mono mult_left_mono) simp_all
  finally have m_hi: "?m \<le> 100 * real B * (1 + eps) ^ 2" by (simp add: power2_eq_square algebra_simps)
  have "100 * (real B * (1 - eps)) * (1 - eps) \<le> 100 * ?b * (1 - eps)"
    using b_lo eps by (intro mult_right_mono mult_left_mono) simp_all
  also have "\<dots> \<le> ?m" using fl_error(1)[of "100 * ?b"] b0 by (simp add: eps_def)
  finally have m_lo: "100 * real B * (1 - eps) ^ 2 \<le> ?m" by (simp add: power2_eq_square algebra_simps)
  have wl: "0 < real T * (1 - eps)" using T eps by simp
  have m_hi0: "0 \<le> 100 * real B * (1 + eps) ^ 2" by simp
  have "?m / ?t \<le> (100 * real B * (1 + eps) ^ 2) / (real T * (1 - eps))"
    using m_hi0 m_hi wl t_lo by (rule frac_le)
  then have "?m / ?t * (1 + eps) \<le> (100 * real B * (1 + eps) ^ 2) / (real T * (1 - eps)) * (1 + eps)"
    using eps by (intro mult_right_mono) simp_all
  moreover have "fl (?m / ?t) \<le> ?m / ?t * (1 + eps)"
    using fl_error(2)[OF mt0] by (simp add: eps_def)
  ultimately have "fl (?m / ?t) \<le> (100 * real B * (1 + eps) ^ 2) / (real T * (1 - eps)) * (1 + eps)"
    by linarith
  also have "\<dots> = ?q * ((1 + eps) ^ 3 / (1 - eps))"
    using T eps by (simp add: power3_eq_cube power2_eq_square field_simps)
  also have "\<dots> \<le> ?q * (1 + 1 / 2 ^ 50)"
  proof (intro mult_left_mono q0)
    show "(1 + eps) ^ 3 / (1 - eps) \<le> 1 + 1 / 2 ^ 50" by (simp add: eps_def power_divide)
  qed
  finally have hi: "fl (?m / ?t) \<le> ?q + ?q / 2 ^ 50" by (simp add: algebra_simps)
  have "(100 * real B * (1 - eps) ^ 2) / (real T * (1 + eps)) \<le> ?m / ?t"
    using m0 m_lo t t_hi by (rule frac_le)
  then have "(100 * real B * (1 - eps) ^ 2) / (real T * (1 + eps)) * (1 - eps) \<le> ?m / ?t * (1 - eps)"
    using eps by (intro mult_right_mono) simp_all
  moreover have "?m / ?t * (1 - eps) \<le> fl (?m / ?t)"
    using fl_error(1)[OF mt0] by (simp add: eps_def)
  ultimately have l1: "(100 * real B * (1 - eps) ^ 2) / (real T * (1 + eps)) * (1 - eps) \<le> fl (?m / ?t)"
    by linarith
  have l2: "(100 * real B * (1 - eps) ^ 2) / (real T * (1 + eps)) * (1 - eps)
                 = ?q * ((1 - eps) ^ 3 / (1 + eps))"
    using T eps by (simp add: power3_eq_cube power2_eq_square field_simps)
  have l3: "?q * (1 - 1 / 2 ^ 50) \<le> ?q * ((1 - eps) ^ 3 / (1 + eps))"
  proof (intro mult_left_mono q0)
    show "1 - 1 / 2 ^ 50 \<le> (1 - eps) ^ 3 / (1 + eps)" by (simp add: eps_def power_divide)
  qed
  have l4: "?q * (1 - 1 / 2 ^ 50) = ?q - ?q / 2 ^ 50" by (simp add: algebra_simps)
  have lo: "?q - ?q / 2 ^ 50 \<le> fl (?m / ?t)" using l1 l3 unfolding l2 l4 by linarith
  from lo hi show ?thesis by (simp add: abs_le_iff)
qed

section \<open>System CPU percentage\<close>

lemma unat_add_exact: "unat (a::u64) + unat b < 2 ^ 64 \<Longrightarrow> unat (a + b) = unat a + unat b"
  by (simp add: unat_add_lem[THEN iffD1])

lemma unat_sub_exact: "unat (b::u64) \<le> unat a \<Longrightarrow> unat (a - b) = unat a - unat b"
  by (simp add: unat_sub word_le_nat_alt)

lemma total_exact: "total_nat s < 2 ^ 64 \<Longrightarrow> unat (total_of s) = total_nat s"
  unfolding total_of_def total_nat_def
  by (simp add: unat_add_exact)

lemma idle_exact: "total_nat s < 2 ^ 64 \<Longrightarrow> unat (idleAll s) = idle_nat s"
  unfolding idleAll_def total_nat_def idle_nat_def
  by (simp add: unat_add_exact)

lemma counters_le_total: "counters_le p c \<Longrightarrow> total_nat p \<le> total_nat c"
  unfolding counters_le_def total_nat_def word_le_nat_alt by linarith

lemma counters_le_idle: "counters_le p c \<Longrightarrow> idle_nat p \<le> idle_nat c"
  unfolding counters_le_def idle_nat_def word_le_nat_alt by linarith

lemma counters_le_busy:
  "counters_le p c \<Longrightarrow> idle_nat c - idle_nat p \<le> total_nat c - total_nat p"
  unfolding counters_le_def idle_nat_def total_nat_def word_le_nat_alt by linarith

text \<open>The snapshot of the ten differences has the differences of the sums as its sums.\<close>

lemma diffs_exact:
  assumes le: "counters_le p c" and small: "total_nat c - total_nat p < 2 ^ 64"
  shows "unat (tot_diff p c) = total_nat c - total_nat p"
    and "unat (idle_diff p c) = idle_nat c - idle_nat p"
proof -
  let ?d = "\<lparr>user = user c - user p, nice = nice c - nice p, system = system c - system p,
             idle = idle c - idle p, iowait = iowait c - iowait p, irq = irq c - irq p,
             softirq = softirq c - softirq p, steal = steal c - steal p,
             guest = guest c - guest p, guest_nice = guest_nice c - guest_nice p\<rparr>"
  have t: "total_of ?d = tot_diff p c" by (simp add: total_of_def tot_diff_def)
  have i: "idleAll ?d = idle_diff p c" by (simp add: idleAll_def idle_diff_def)
  have u: "unat (user c - user p) = unat (user c) - unat (user p)"
      "unat (nice c - nice p) = unat (nice c) - unat (nice p)"
      "unat (system c - system p) = unat (system c) - unat (system p)"
      "unat (idle c - idle p) = unat (idle c) - unat (idle p)"
      "unat (iowait c - iowait p) = unat (iowait c) - unat (iowait p)"
      "unat (irq c - irq p) = unat (irq c) - unat (irq p)"
      "unat (softirq c - softirq p) = unat (softirq c) - unat (softirq p)"
      "unat (steal c - steal p) = unat (steal c) - unat (steal p)"
      "unat (guest c - guest p) = unat (guest c) - unat (guest p)"
      "unat (guest_nice c - guest_nice p) = unat (guest_nice c) - unat (guest_nice p)"
    using le by (simp_all add: counters_le_def unat_sub_exact word_le_nat_alt)
  have tn: "total_nat ?d = total_nat c - total_nat p"
    using le unfolding total_nat_def counters_le_def word_le_nat_alt
    by (simp add: u) 
  have "idle_nat ?d = idle_nat c - idle_nat p"
    using le unfolding idle_nat_def counters_le_def word_le_nat_alt
    by (simp add: u)
  moreover have s: "total_nat ?d < 2 ^ 64" unfolding tn by (rule small)
  ultimately show "unat (tot_diff p c) = total_nat c - total_nat p"
    and "unat (idle_diff p c) = idle_nat c - idle_nat p"
    using total_exact[OF s] idle_exact[OF s] unfolding t i tn by simp_all
qed

lemma busy_exact:
  assumes "counters_le p c" "total_nat c - total_nat p < 2 ^ 64"
  shows "unat (tot_diff p c - idle_diff p c)
         = (total_nat c - total_nat p) - (idle_nat c - idle_nat p)"
  using counters_le_busy[OF assms(1)]
  by (simp add: unat_sub_exact diffs_exact[OF assms])

lemmas cpu_defs = cpu_usage_def tot_diff_def idle_diff_def total_of_def idleAll_def zero_cpu_def
  counters_le_def total_nat_def idle_nat_def

lemma fl_values:
  "fl 1 = 1" "fl 2 = 2" "fl 10 = 10" "fl 100 = 100" "fl 200 = 200" "fl 1000 = 1000"
  "fl 10000 = 10000"
  "fl 5764607523034237 = 5764607523034237"
  "fl 576460752303423700 = 576460752303423744"
  "fl (576460752303423744 / 5764607523034237) = 100 + 1 / 2 ^ 46"
  by (subst fl_binade[where e=0], simp_all add: rne_def,
      subst fl_binade[where e=1], simp_all add: rne_def,
      subst fl_binade[where e=3], simp_all add: rne_def,
      subst fl_binade[where e=6], simp_all add: rne_def,
      subst fl_binade[where e=7], simp_all add: rne_def,
      subst fl_binade[where e=9], simp_all add: rne_def,
      subst fl_binade[where e=13], simp_all add: rne_def,
      subst fl_binade[where e=52], simp_all add: rne_def,
      subst fl_binade[where e=59], simp_all add: rne_def,
      subst fl_binade[where e=6], simp_all add: rne_def)

text \<open>
  Claim C1, as stated, fails in two ways. When the sum of the ten counters passes \<open>2 ^ 64\<close>:
  from the all-zero snapshot to \<open>wrapped_cur\<close> every counter grows or stays, the sum wraps
  to 1, the idle difference is \<open>2 ^ 64 - 1\<close>, and the percentage is 200. And by rounding:
  from the all-zero snapshot to \<open>rounded_cur\<close> nothing wraps and no tick is idle, the
  product \<open>100 * 5764607523034237\<close> is rounded up to \<open>2 ^ 59 + 256\<close>, and the quotient is
  rounded to \<open>100 + 2 ^ -46\<close>, the double after 100.
\<close>

theorem cpu_usage_bound_counterexample:
  "counters_le zero_cpu wrapped_cur \<and> cpu_usage zero_cpu wrapped_cur = 200
   \<and> \<not> cpu_usage zero_cpu wrapped_cur \<le> 100
   \<and> counters_le zero_cpu rounded_cur \<and> total_nat rounded_cur < 2 ^ 64
   \<and> cpu_usage zero_cpu rounded_cur = 100 + 1 / 2 ^ 46
   \<and> \<not> cpu_usage zero_cpu rounded_cur \<le> 100"
  by (simp add: cpu_defs wrapped_cur_def rounded_cur_def fl_values)

text \<open>
  Claim C1, amended: when every counter of the current snapshot is at least the previous
  one and the sums of the two snapshots differ by less than \<open>2 ^ 64\<close>, \<open>tot_diff\<close> and
  \<open>idle_diff\<close> are the differences of the sums. For a positive \<open>tot_diff\<close> the system CPU
  percentage is the double that \<^verbatim>\<open>100.0 * (double)(tot_diff - idle_diff) / (double)tot_diff\<close>
  yields with every step rounded to nearest, which differs from the quotient
  \<open>100 * (tot_diff - idle_diff) / tot_diff\<close> by at most that quotient times \<open>2 ^ -50\<close>; for
  \<open>tot_diff = 0\<close> it is 0. It lies between 0 and \<open>100 + 2 ^ -46\<close>.
\<close>

theorem cpu_usage_monotone:
  assumes "counters_le p c" and "total_nat c - total_nat p < 2 ^ 64"
  shows "(if total_nat c - total_nat p > 0
          then cpu_usage p c =
                 fl (fl (100 * fl (real ((total_nat c - total_nat p) - (idle_nat c - idle_nat p))))
                     / fl (real (total_nat c - total_nat p)))
             \<and> \<bar>cpu_usage p c
                 - 100 * (real (total_nat c - total_nat p) - real (idle_nat c - idle_nat p))
                   / real (total_nat c - total_nat p)\<bar>
               \<le> 100 * (real (total_nat c - total_nat p) - real (idle_nat c - idle_nat p))
                   / real (total_nat c - total_nat p) / 2 ^ 50
          else cpu_usage p c = 0)
         \<and> 0 \<le> cpu_usage p c \<and> cpu_usage p c \<le> 100 + 1 / 2 ^ 46"
proof -
  let ?T = "total_nat c - total_nat p" and ?I = "idle_nat c - idle_nat p"
  have T: "unat (tot_diff p c) = ?T" by (rule diffs_exact(1)[OF assms])
  have B: "unat (tot_diff p c - idle_diff p c) = ?T - ?I" by (rule busy_exact[OF assms])
  have IT: "?I \<le> ?T" by (rule counters_le_busy[OF assms(1)])
  have pos: "tot_diff p c > 0 \<longleftrightarrow> ?T > 0"
    using T by (simp add: word_greater_zero_iff unat_gt_0[symmetric] del: unat_gt_0)
  have sub: "real (?T - ?I) = real ?T - real ?I" using IT by (rule of_nat_diff)
  show ?thesis
  proof (cases "?T > 0")
    case True
    have eq: "cpu_usage p c = fl (fl (100 * fl (real (?T - ?I))) / fl (real ?T))"
      unfolding cpu_usage_def pos T B using True by simp
    have err: "\<bar>cpu_usage p c - 100 * (real ?T - real ?I) / real ?T\<bar>
               \<le> 100 * (real ?T - real ?I) / real ?T / 2 ^ 50"
      unfolding eq sub[symmetric] using True by (rule percent_error)
    have lo: "0 \<le> cpu_usage p c" unfolding eq using True by (rule percent_bound(1)) simp
    have hi: "cpu_usage p c \<le> 100 + 1 / 2 ^ 46"
      unfolding eq using True by (rule percent_bound(2)) simp
    from True eq err lo hi show ?thesis by simp
  next
    case False
    then have "cpu_usage p c = 0" unfolding cpu_usage_def pos by simp
    with False show ?thesis by simp
  qed
qed

theorem cpu_usage_monotone_witness:
  "counters_le scenario_A_prev scenario_A_cur
   \<and> total_nat scenario_A_cur - total_nat scenario_A_prev < 2 ^ 64
   \<and> cpu_usage scenario_A_prev scenario_A_cur = 10
   \<and> 0 \<le> cpu_usage scenario_A_prev scenario_A_cur
   \<and> cpu_usage scenario_A_prev scenario_A_cur \<le> 100 + 1 / 2 ^ 46"
proof -
  have h1: "counters_le scenario_A_prev scenario_A_cur"
    by (simp add: cpu_defs scenario_A_prev_def scenario_A_cur_def)
  have v: "total_nat scenario_A_cur - total_nat scenario_A_prev = 1000"
          "idle_nat scenario_A_cur - idle_nat scenario_A_prev = 900"
    by (simp_all add: cpu_defs scenario_A_prev_def scenario_A_cur_def)
  have h2: "total_nat scenario_A_cur - total_nat scenario_A_prev < 2 ^ 64"
    unfolding v by simp
  from cpu_usage_monotone[OF h1 h2]
  have "cpu_usage scenario_A_prev scenario_A_cur = 10
        \<and> 0 \<le> cpu_usage scenario_A_prev scenario_A_cur
        \<and> cpu_usage scenario_A_prev scenario_A_cur \<le> 100 + 1 / 2 ^ 46"
    unfolding v by (simp add: fl_values)
  with h1 h2 show ?thesis by blast
qed

section \<open>Evaluating the parsers on the example inputs\<close>

lemmas parse_defs = tokens_def first_line_def upto_nul_def NL_def NUL_def isspace_def isdigit_def
  digit_val_def sign_digits_def stoull_def stol_def

lemmas mem_defs = mem_used_def mem_used_of_def starts_with_def extract_val_def num_get_ull_def

lemma read_42: "read_proc 4 42 files_42 =
   Inr \<lparr>pid = 42, owner = ''alice'', cmd = ''worker'', utime = 20, stime = 15,
             rss = 50000, cpu_percent = 0, mem_percent = 0\<rparr>"
  by (simp add: read_proc_def read_cmd_def files_42_def stat_line_42_def parse_defs)

lemma read_101: "read_proc 4 101 files_101 =
   Inr \<lparr>pid = 101, owner = ''bob'', cmd = ''sh'', utime = 7, stime = 3,
             rss = 1000, cpu_percent = 0, mem_percent = 0\<rparr>"
  by (simp add: read_proc_def read_cmd_def files_101_def stat_line_101_def parse_defs)

lemma read_7: "read_proc 4 7 files_7 =
   Inr \<lparr>pid = 7, owner = ''alice'', cmd = ''cat'', utime = 0, stime = 0,
             rss = 0, cpu_percent = 0, mem_percent = 0\<rparr>"
  by (simp add: read_proc_def read_cmd_def files_7_def parse_defs)

lemma scenario_tot_diff: "tot_diff scenario_A_prev scenario_A_cur = 1000"
  by (simp add: cpu_defs scenario_A_prev_def scenario_A_cur_def)

lemma scenario_cpu_usage: "cpu_usage scenario_A_prev scenario_A_cur = 10"
  by (simp add: cpu_defs scenario_A_prev_def scenario_A_cur_def fl_values)

lemma scenario_mem_used: "mem_used 1000000 0 scenario_meminfo = 400000"
  by (simp add: scenario_meminfo_def mem_defs parse_defs)

lemma zero_total_mem_used: "mem_used 0 0 scenario_meminfo = 18446744073709251616"
  by (simp add: scenario_meminfo_def mem_defs parse_defs)

lemma tick_scenario: "tick 4 scenario_state scenario_input = Inr (scenario_view, scenario_state')"
  by (simp add: tick_def scenario_state_def scenario_input_def scenario_view_def
      scenario_state'_def read_42 read_101 scenario_tot_diff scenario_cpu_usage scenario_mem_used
      derive_row_def cpu_pct_def mem_pct_def total_time_def prev_42_def row_42_def row_101_def
      update_prev_def)

lemma tick_short: "tick 4 scenario_state short_input = Inr (short_view, short_state')"
  by (simp add: tick_def scenario_state_def scenario_input_def scenario_view_def
      scenario_state'_def short_input_def short_view_def short_state'_def read_7
      scenario_tot_diff scenario_cpu_usage scenario_mem_used
      derive_row_def cpu_pct_def mem_pct_def total_time_def row_7_def update_prev_def)

lemma tick_zero_total:
  "tick 4 zero_total_state zero_total_input =
     Inr (zero_total_view, zero_total_state\<lparr>prev_procs := Map.empty, prev_cpu := scenario_A_cur\<rparr>)"
  by (simp add: tick_def zero_total_state_def zero_total_input_def zero_total_view_def
      scenario_state_def scenario_input_def scenario_tot_diff scenario_cpu_usage
      zero_total_mem_used update_prev_def)


section \<open>The stat line of a command with spaces\<close>

text \<open>
  Claim C2 on the code: \<open>read_proc\<close> splits the whole line at white space and takes the
  tokens 13, 14 and 23, so the command \<^verbatim>\<open>(weird ) name)\<close>, three tokens long, moves every
  later field by two. The record holds \<open>majflt = 3\<close> as \<open>utime\<close>, \<open>cmajflt = 4\<close> as \<open>stime\<close>
  and \<open>starttime = 5000\<close> pages as \<open>rss\<close>, while counting from the last \<^verbatim>\<open>)\<close> gives the
  fields 77, 88 and 321 of the line.
\<close>

theorem read_proc_weird_comm:
  "read_proc 4 1234 weird_files =
     Inr \<lparr>pid = 1234, owner = ''root'', cmd = ''weird ) name'', utime = 3, stime = 4,
          rss = 20000, cpu_percent = 0, mem_percent = 0\<rparr>
   \<and> spec_stat_fields weird_stat_line = Some (''77'', ''88'', ''321'')
   \<and> stoull ''77'' = Inr 77 \<and> stoull ''88'' = Inr 88 \<and> stol ''321'' = Inr 321"
  by (simp add: read_proc_def read_cmd_def weird_files_def weird_stat_line_def
      spec_stat_fields_def spec_stat_tail_def parse_defs)

section \<open>The command line\<close>

lemma map_nul_upto_nul:
  "map (\<lambda>c. if c = NUL then CHR '' '' else c) (upto_nul content) = upto_nul content"
  unfolding upto_nul_def by (rule map_idI) (auto dest: set_takeWhileD)

lemma read_cmd_first_argument:
  "cmdline_file files = Some content \<Longrightarrow> upto_nul content \<noteq> [] \<Longrightarrow>
   read_cmd files = upto_nul content"
  by (simp add: read_cmd_def map_nul_upto_nul)

text \<open>
  Claim C9 on the code: \<^verbatim>\<open>getline(fcmd, cmd, '\0')\<close> stops at the first NUL, so the command
  of \<^verbatim>\<open>ls -la\<close> is \<^verbatim>\<open>ls\<close> alone; the loop that replaces NULs by spaces finds none. The
  arguments joined by single spaces are \<^verbatim>\<open>ls -la\<close>.
\<close>

theorem read_cmd_ls_la:
  "read_cmd ls_files = ''ls'' \<and> spec_cmdline ls_cmdline = ''ls -la''"
  by (simp add: read_cmd_def ls_files_def ls_cmdline_def spec_cmdline_def upto_nul_def NUL_def)

section \<open>The rows of a tick\<close>

lemma read_proc_pid: "read_proc psz q files = Inr cur \<Longrightarrow> pid cur = q"
  by (auto simp: read_proc_def Let_def split: option.splits sum.splits if_splits)

lemma derive_row_fields:
  "pid (derive_row prev td mt cur) = pid cur"
  "utime (derive_row prev td mt cur) = utime cur"
  "stime (derive_row prev td mt cur) = stime cur"
  "rss (derive_row prev td mt cur) = rss cur"
  "total_time (derive_row prev td mt cur) = total_time cur"
  "cpu_percent (derive_row prev td mt cur) = cpu_pct prev td cur"
  "mem_percent (derive_row prev td mt cur) = mem_pct mt cur"
  by (simp_all add: derive_row_def total_time_def)

lemma sample_procs_rows:
  "sample_procs psz prev td mt dirs = Inr procs \<Longrightarrow>
   list_all2 (\<lambda>d r. \<exists>cur. read_proc psz (fst d) (snd d) = Inr cur \<and> r = derive_row prev td mt cur)
     dirs procs"
proof (induction dirs arbitrary: procs)
  case Nil
  then show ?case by simp
next
  case (Cons d dirs)
  obtain q files where d: "d = (q, files)" by (cases d)
  from Cons.prems obtain cur rest where
    c: "read_proc psz q files = Inr cur" and
    r: "sample_procs psz prev td mt dirs = Inr rest" and
    p: "procs = derive_row prev td mt cur # rest"
    unfolding d by (auto split: sum.splits)
  from Cons.IH[OF r] c show ?case unfolding d p by simp
qed


lemma sample_procs_row:
  assumes "sample_procs psz prev td mt dirs = Inr procs" and "r \<in> set procs"
  shows "\<exists>files cur. (pid r, files) \<in> set dirs \<and> read_proc psz (pid r) files = Inr cur
           \<and> r = derive_row prev td mt cur"
proof -
  from assms(2) obtain i where i: "i < length procs" and ri: "procs ! i = r"
    by (auto simp: in_set_conv_nth)
  note l = sample_procs_rows[OF assms(1)]
  have len: "length dirs = length procs" using l by (rule list_all2_lengthD)
  from list_all2_nthD2[OF l i] obtain cur where
    c: "read_proc psz (fst (dirs ! i)) (snd (dirs ! i)) = Inr cur"
    and r: "r = derive_row prev td mt cur"
    unfolding ri by blast
  have q: "pid r = fst (dirs ! i)" using read_proc_pid[OF c] r by (simp add: derive_row_fields)
  have "dirs ! i \<in> set dirs" using i len by simp
  then have "(pid r, snd (dirs ! i)) \<in> set dirs" unfolding q by simp
  with c r show ?thesis unfolding q by blast
qed

lemma sample_procs_dir:
  assumes "sample_procs psz prev td mt dirs = Inr procs" and "(q, files) \<in> set dirs"
  shows "\<exists>cur. read_proc psz q files = Inr cur \<and> derive_row prev td mt cur \<in> set procs"
proof -
  from assms(2) obtain i where i: "i < length dirs" and di: "dirs ! i = (q, files)"
    by (auto simp: in_set_conv_nth)
  note l = sample_procs_rows[OF assms(1)]
  have len: "length dirs = length procs" using l by (rule list_all2_lengthD)
  from list_all2_nthD[OF l i] obtain cur where
    c: "read_proc psz q files = Inr cur" and r: "procs ! i = derive_row prev td mt cur"
    unfolding di by auto
  have "procs ! i \<in> set procs" using i len by simp
  with c r show ?thesis by auto
qed

lemma sample_procs_pids:
  assumes "sample_procs psz prev td mt dirs = Inr procs"
  shows "pid ` set procs = fst ` set dirs"
proof (intro set_eqI iffI)
  fix q assume "q \<in> pid ` set procs"
  then obtain r where "r \<in> set procs" "q = pid r" by auto
  with sample_procs_row[OF assms] show "q \<in> fst ` set dirs" by force
next
  fix q assume "q \<in> fst ` set dirs"
  then obtain files where "(q, files) \<in> set dirs" by auto
  from sample_procs_dir[OF assms this] obtain cur where
    c: "read_proc psz q files = Inr cur" and m: "derive_row prev td mt cur \<in> set procs" by auto
  have "pid (derive_row prev td mt cur) = q" using read_proc_pid[OF c] by (simp add: derive_row_fields)
  with m show "q \<in> pid ` set procs" by force
qed

lemma fold_prev_dom:
  "dom (fold (\<lambda>p m. m(pid p \<mapsto> p)) procs m0) = dom m0 \<union> pid ` set procs"
  by (induction procs arbitrary: m0) auto

lemma dom_update_prev: "dom (update_prev procs) = pid ` set procs"
  by (simp add: update_prev_def fold_prev_dom)

lemma fold_prev_Some:
  "fold (\<lambda>p m. m(pid p \<mapsto> p)) procs m0 q = Some r \<Longrightarrow>
   (r \<in> set procs \<and> pid r = q) \<or> m0 q = Some r"
proof (induction procs arbitrary: m0)
  case Nil
  then show ?case by simp
next
  case (Cons a procs)
  from Cons.prems have "fold (\<lambda>p m. m(pid p \<mapsto> p)) procs (m0(pid a \<mapsto> a)) q = Some r"
    by (simp only: fold_simps)
  from Cons.IH[OF this] show ?case by (auto split: if_splits)
qed

lemma update_prev_Some: "update_prev procs q = Some r \<Longrightarrow> r \<in> set procs \<and> pid r = q"
  using fold_prev_Some[of procs Map.empty q r] by (simp add: update_prev_def)

lemma drawn_rows_subset: "snd ` set (drawn_rows lines ys) \<subseteq> set ys"
  by (auto simp: drawn_rows_def Let_def dest!: set_zip_rightD in_set_takeD)

lemma sort_post_set: "std_sort_post cmp xs ys \<Longrightarrow> set ys = set xs"
  by (auto simp: std_sort_post_def dest: mset_eq_setD)

lemma tick_Inr:
  assumes "tick psz st inp = Inr (view, st')"
  shows "sample_procs psz (prev_procs st) (tot_diff (prev_cpu st) (cur_cpu inp))
           (total_mem_kb_cache st) (proc_dirs inp) = Inr (view_procs view)"
    and "prev_procs st' = update_prev (view_procs view)"
    and "view_mem_used view = mem_used (total_mem_kb_cache st) (uninit_val inp) (meminfo inp)"
    and "view_cpu_usage view = cpu_usage (prev_cpu st) (cur_cpu inp)"
    and "prev_cpu st' = cur_cpu inp"
  using assms by (auto simp: tick_def Let_def split: sum.splits)



lemma scenario_facts:
  "prev_procs scenario_state 42 = Some prev_42"
  "prev_procs scenario_state 101 = None"
  "prev_procs scenario_state 77 = Some prev_77"
  "prev_cpu scenario_state = scenario_A_prev"
  "cur_cpu scenario_input = scenario_A_cur"
  "proc_dirs scenario_input = [(42, files_42), (101, files_101)]"
  "LINES scenario_input = 24"
  "view_procs scenario_view = [row_42, row_101]"
  by (simp_all add: scenario_state_def scenario_input_def scenario_view_def)




text \<open>
  Claim C4: after a tick that completes, the new previous mapping has exactly the sampled
  process ids as its keys, which are the ids of the rows, and each entry is the row of its
  key. An id of the old mapping that was not sampled is neither a key of the new mapping
  nor the id of a row drawn from any sorted order of the rows.
\<close>

theorem prev_map_is_sample:
  assumes "tick psz st inp = Inr (view, st')"
  shows "dom (prev_procs st') = fst ` set (proc_dirs inp)
       \<and> dom (prev_procs st') = pid ` set (view_procs view)
       \<and> (\<forall>q r. prev_procs st' q = Some r \<longrightarrow> r \<in> set (view_procs view) \<and> pid r = q)
       \<and> (\<forall>q. q \<in> dom (prev_procs st) \<longrightarrow> q \<notin> fst ` set (proc_dirs inp) \<longrightarrow>
            q \<notin> dom (prev_procs st')
            \<and> (\<forall>by_cpu ys. std_sort_post (comparator by_cpu) (view_procs view) ys \<longrightarrow>
                  q \<notin> pid ` snd ` set (drawn_rows (LINES inp) ys)))"
proof -
  note t = tick_Inr[OF assms]
  have pids: "pid ` set (view_procs view) = fst ` set (proc_dirs inp)"
    by (rule sample_procs_pids[OF t(1)])
  have dom: "dom (prev_procs st') = pid ` set (view_procs view)"
    by (simp add: t(2) dom_update_prev)
  have ent: "\<forall>q r. prev_procs st' q = Some r \<longrightarrow> r \<in> set (view_procs view) \<and> pid r = q"
    unfolding t(2) by (blast dest: update_prev_Some)
  have drawn: "pid ` snd ` set (drawn_rows (LINES inp) ys) \<subseteq> fst ` set (proc_dirs inp)"
    if "std_sort_post (comparator by_cpu) (view_procs view) ys" for by_cpu ys
  proof -
    have "snd ` set (drawn_rows (LINES inp) ys) \<subseteq> set (view_procs view)"
      using drawn_rows_subset[of "LINES inp" ys] sort_post_set[OF that] by simp
    then have "pid ` snd ` set (drawn_rows (LINES inp) ys) \<subseteq> pid ` set (view_procs view)"
      by (rule image_mono)
    then show ?thesis unfolding pids .
  qed
  have d1: "dom (prev_procs st') = fst ` set (proc_dirs inp)" using dom pids by simp
  show ?thesis
  proof (intro conjI allI impI)
    show "dom (prev_procs st') = fst ` set (proc_dirs inp)" by (rule d1)
    show "dom (prev_procs st') = pid ` set (view_procs view)" by (rule dom)
  next
    fix q r assume "prev_procs st' q = Some r"
    with ent show "r \<in> set (view_procs view)" "pid r = q" by blast+
  next
    fix q assume "q \<notin> fst ` set (proc_dirs inp)"
    then show "q \<notin> dom (prev_procs st')" unfolding d1 .
  next
    fix q by_cpu ys
    assume n: "q \<notin> fst ` set (proc_dirs inp)"
      and s: "std_sort_post (comparator by_cpu) (view_procs view) ys"
    from drawn[OF s] n show "q \<notin> pid ` snd ` set (drawn_rows (LINES inp) ys)"
      by (rule contra_subsetD)
  qed
qed


theorem prev_map_is_sample_witness:
  "tick 4 scenario_state scenario_input = Inr (scenario_view, scenario_state')
   \<and> dom (prev_procs scenario_state') = {42, 101}
   \<and> 77 \<in> dom (prev_procs scenario_state)
   \<and> 77 \<notin> dom (prev_procs scenario_state')
   \<and> std_sort_post (comparator True) (view_procs scenario_view) [row_42, row_101]
   \<and> 77 \<notin> pid ` snd ` set (drawn_rows 24 [row_42, row_101])"
proof -
  note t = prev_map_is_sample[OF tick_scenario]
  have old: "77 \<in> dom (prev_procs scenario_state)" using scenario_facts(3) by (rule domI)
  have new: "77 \<notin> fst ` set (proc_dirs scenario_input)" by (simp add: scenario_facts)
  have srt: "std_sort_post (comparator True) (view_procs scenario_view) [row_42, row_101]"
    by (simp add: scenario_facts std_sort_post_def comparator_def cpu_less_def row_42_def
        row_101_def)
  have "dom (prev_procs scenario_state') = fst ` set (proc_dirs scenario_input)"
    by (rule t[THEN conjunct1])
  then have d: "dom (prev_procs scenario_state') = {42, 101}"
    by (simp add: scenario_facts insert_commute)
  note gone = t[THEN conjunct2, THEN conjunct2, THEN conjunct2, rule_format, OF old new]
  have g: "77 \<notin> dom (prev_procs scenario_state')" by (rule gone[THEN conjunct1])
  have "77 \<notin> pid ` snd ` set (drawn_rows (LINES scenario_input) [row_42, row_101])"
    by (rule gone[THEN conjunct2, rule_format, OF srt])
  then have r: "77 \<notin> pid ` snd ` set (drawn_rows 24 [row_42, row_101])"
    unfolding scenario_facts(7) .
  from tick_scenario d old g srt r show ?thesis by simp
qed

section \<open>A stat line with too few fields\<close>

text \<open>
  Claim C8, as stated, fails: the stat line of process 7 has four tokens, \<open>read_proc\<close>
  returns a record all the same, and the tick has a row for the process and enters it into
  the new previous mapping.
\<close>

theorem short_stat_counterexample:
  "length (tokens (first_line ''7 (cat) S 1'')) = 4
   \<and> tick 4 scenario_state short_input = Inr (short_view, short_state')
   \<and> view_procs short_view = [row_7]
   \<and> prev_procs short_state' 7 = Some row_7"
  by (simp add: tick_short short_view_def short_state'_def parse_defs)

lemma sample_procs_completes:
  "(\<And>d. d \<in> set dirs \<Longrightarrow> \<exists>cur. read_proc psz (fst d) (snd d) = Inr cur) \<Longrightarrow>
   \<exists>procs. sample_procs psz prev td mt dirs = Inr procs"
proof (induction dirs)
  case Nil
  then show ?case by simp
next
  case (Cons d dirs)
  obtain q files where d: "d = (q, files)" by (cases d)
  from Cons.prems[of d] obtain cur where "read_proc psz q files = Inr cur" unfolding d by auto
  moreover from Cons.IH Cons.prems obtain procs where
    "sample_procs psz prev td mt dirs = Inr procs" by auto
  ultimately show ?case unfolding d by simp
qed

lemma tick_completes:
  "(\<And>d. d \<in> set (proc_dirs inp) \<Longrightarrow> \<exists>cur. read_proc psz (fst d) (snd d) = Inr cur) \<Longrightarrow>
   \<exists>view st'. tick psz st inp = Inr (view, st')"
  using sample_procs_completes[of "proc_dirs inp" psz "prev_procs st"
      "tot_diff (prev_cpu st) (cur_cpu inp)" "total_mem_kb_cache st"]
  by (auto simp: tick_def Let_def)

text \<open>
  Claim C8, amended: for a process whose stat line has fewer than 24 tokens the parser does
  not fail; it returns the record with \<open>utime\<close>, \<open>stime\<close> and \<open>rss\<close> 0. In every tick that
  samples the process and completes, the process has a row with these values and is a key
  of the new previous mapping.
\<close>

theorem short_stat_kept:
  assumes "stat_file files = Some content"
    and "length (tokens (first_line content)) < 24"
  shows "read_proc psz q files =
           Inr \<lparr>pid = q, owner = status_user files, cmd = read_cmd files, utime = 0, stime = 0,
                rss = 0, cpu_percent = 0, mem_percent = 0\<rparr>
       \<and> (\<forall>st inp view st'.
            tick psz st inp = Inr (view, st') \<longrightarrow> (q, files) \<in> set (proc_dirs inp) \<longrightarrow>
              (\<exists>r. r \<in> set (view_procs view) \<and> pid r = q \<and> utime r = 0 \<and> stime r = 0
                   \<and> rss r = 0)
              \<and> q \<in> dom (prev_procs st'))"
proof -
  let ?p = "\<lparr>pid = q, owner = status_user files, cmd = read_cmd files, utime = 0, stime = 0,
             rss = 0, cpu_percent = 0, mem_percent = 0\<rparr>"
  have rd: "read_proc psz q files = Inr ?p"
    using assms by (simp add: read_proc_def Let_def)
  have row: "(\<exists>r. r \<in> set (view_procs view) \<and> pid r = q \<and> utime r = 0 \<and> stime r = 0 \<and> rss r = 0)
             \<and> q \<in> dom (prev_procs st')"
    if tk: "tick psz st inp = Inr (view, st')" and dir: "(q, files) \<in> set (proc_dirs inp)"
    for st inp view st'
  proof -
    note t = tick_Inr[OF tk]
    from sample_procs_dir[OF t(1) dir] rd
    have m: "derive_row (prev_procs st) (tot_diff (prev_cpu st) (cur_cpu inp))
               (total_mem_kb_cache st) ?p \<in> set (view_procs view)" (is "?r \<in> _")
      by simp
    have f: "pid ?r = q" "utime ?r = 0" "stime ?r = 0" "rss ?r = 0"
      by (simp_all add: derive_row_fields)
    from m f have ex: "\<exists>r. r \<in> set (view_procs view) \<and> pid r = q \<and> utime r = 0 \<and> stime r = 0
                         \<and> rss r = 0"
      by blast
    have "q \<in> pid ` set (view_procs view)" using m f(1) by force
    then have "q \<in> dom (prev_procs st')" by (simp add: t(2) dom_update_prev)
    with ex show ?thesis by (rule conjI)
  qed
  show ?thesis
  proof (intro conjI allI impI)
    show "read_proc psz q files = Inr ?p" by (rule rd)
  next
    fix st inp view st'
    assume "tick psz st inp = Inr (view, st')" "(q, files) \<in> set (proc_dirs inp)"
    from row[OF this]
    show "\<exists>r. r \<in> set (view_procs view) \<and> pid r = q \<and> utime r = 0 \<and> stime r = 0 \<and> rss r = 0"
      and "q \<in> dom (prev_procs st')"
      by (rule conjunct1, rule conjunct2)
  qed
qed

theorem short_stat_kept_witness:
  "stat_file files_7 = Some ''7 (cat) S 1''
   \<and> length (tokens (first_line ''7 (cat) S 1'')) < 24
   \<and> read_proc 4 7 files_7 =
       Inr \<lparr>pid = 7, owner = status_user files_7, cmd = read_cmd files_7, utime = 0, stime = 0,
            rss = 0, cpu_percent = 0, mem_percent = 0\<rparr>
   \<and> tick 4 scenario_state short_input = Inr (short_view, short_state')
   \<and> (7, files_7) \<in> set (proc_dirs short_input)
   \<and> (\<exists>r. r \<in> set (view_procs short_view) \<and> pid r = 7 \<and> utime r = 0 \<and> stime r = 0 \<and> rss r = 0)
   \<and> 7 \<in> dom (prev_procs short_state')"
proof -
  have h1: "stat_file files_7 = Some ''7 (cat) S 1''" by (simp add: files_7_def)
  have h2: "length (tokens (first_line ''7 (cat) S 1'')) < 24" by (simp add: parse_defs)
  have d: "(7, files_7) \<in> set (proc_dirs short_input)" by (simp add: short_input_def)
  note t = short_stat_kept[OF h1 h2, of 4 7]
  have rd: "read_proc 4 7 files_7 =
       Inr \<lparr>pid = 7, owner = status_user files_7, cmd = read_cmd files_7, utime = 0, stime = 0,
            rss = 0, cpu_percent = 0, mem_percent = 0\<rparr>"
    by (rule t[THEN conjunct1])
  note row = t[THEN conjunct2, rule_format, OF tick_short d]
  from h1 h2 rd tick_short d row show ?thesis by simp
qed

text \<open>
  A field that is not a number is another matter: \<^verbatim>\<open>stoull\<close> throws, nothing catches the
  exception, and neither the process nor the tick is completed.
\<close>

lemma read_proc_unparseable_throws:
  "read_proc 4 9 \<lparr>cmdline_file = None, comm_file = None,
       stat_file = Some ''9 (a) S 1 9 9 0 -1 0 0 0 0 0 x 15 0 0 20 0 1 0 5000 1000000 250'',
       status_user = []\<rparr> = Inl InvalidArgument"
  by (simp add: read_proc_def read_cmd_def parse_defs)

section \<open>Ranking\<close>

lemma comparator_key: "comparator by_cpu a b \<longleftrightarrow> rank_key by_cpu b < rank_key by_cpu a"
  by (auto simp: comparator_def cpu_less_def mem_less_def rank_key_def less_prod_def)

lemma ranks_before_key: "ranks_before by_cpu a b \<longleftrightarrow> rank_key by_cpu b \<le> rank_key by_cpu a"
  by (auto simp: ranks_before_def less_eq_prod_def)

lemma not_comparator: "(\<not> comparator by_cpu b a) = ranks_before by_cpu a b"
  by (simp add: comparator_key ranks_before_key not_less)

lemma sorted_rev_keys:
  "sorted (rev (map (rank_key by_cpu) ys)) = sorted_wrt (ranks_before by_cpu) ys"
proof -
  have "sorted (rev (map (rank_key by_cpu) ys))
        = sorted_wrt (\<lambda>a b. b \<le> a) (map (rank_key by_cpu) ys)"
    by (rule sorted_wrt_rev)
  also have "\<dots> = sorted_wrt (\<lambda>a b. rank_key by_cpu b \<le> rank_key by_cpu a) ys"
    by (rule sorted_wrt_map)
  also have "(\<lambda>a b. rank_key by_cpu b \<le> rank_key by_cpu a) = ranks_before by_cpu"
    by (intro ext) (simp add: ranks_before_key)
  finally show ?thesis .
qed

lemma sort_post_keys:
  "std_sort_post (comparator by_cpu) xs ys \<longleftrightarrow>
     mset ys = mset xs \<and> sorted (rev (map (rank_key by_cpu) ys))"
  by (simp only: std_sort_post_def not_comparator sorted_rev_keys)

lemma sorted_same_mset: 
  fixes ks :: "('k::linorder) list"
  assumes "sorted ks" "sorted ls" "mset ks = mset ls" shows "ks = ls"
proof -
  have "sort ls = ks" using assms(3) assms(1) by (rule properties_for_sort)
  moreover have "sort ls = ls" using assms(2) by (rule sort_key_id_if_sorted[where f="\<lambda>x. x", simplified])
  ultimately show ?thesis by simp
qed

lemma resort_unique:
  assumes d: "distinct (map (rank_key by_cpu) ys)"
    and ys: "sorted (rev (map (rank_key by_cpu) ys))"
    and zs: "sorted (rev (map (rank_key by_cpu) zs))"
    and m: "mset zs = mset ys"
  shows "zs = ys"
proof -
  have "mset (rev (map (rank_key by_cpu) zs)) = mset (rev (map (rank_key by_cpu) ys))"
    using m by simp
  with zs ys have "rev (map (rank_key by_cpu) zs) = rev (map (rank_key by_cpu) ys)"
    by (rule sorted_same_mset)
  then have eq: "map (rank_key by_cpu) zs = map (rank_key by_cpu) ys" by simp
  have inj: "inj_on (rank_key by_cpu) (set ys)" using d by (simp add: distinct_map)
  have "set zs = set ys" using m by (rule mset_eq_setD)
  with inj have "inj_on (rank_key by_cpu) (set zs \<union> set ys)" by simp
  then show ?thesis using eq by (rule inj_on_map_eq_map[THEN iffD1])
qed

lemma mset_linear_insert: "mset (linear_insert cmp v acc) = add_mset v (mset acc)"
  by (induction acc) simp_all

lemma set_linear_insert: "set (linear_insert cmp v acc) = insert v (set acc)"
  by (induction acc) auto

lemma sorted_linear_insert:
  "sorted (map (rank_key by_cpu) acc) \<Longrightarrow>
   sorted (map (rank_key by_cpu) (linear_insert (comparator by_cpu) v acc))"
proof (induction acc)
  case Nil
  then show ?case by simp
next
  case (Cons e es)
  show ?case
  proof (cases "comparator by_cpu v e")
    case True
    then have "rank_key by_cpu e \<le> rank_key by_cpu v" by (simp add: comparator_key)
    with Cons True show ?thesis by (auto simp: set_linear_insert)
  next
    case False
    then have "rank_key by_cpu v \<le> rank_key by_cpu e" by (simp add: comparator_key not_less)
    with Cons False show ?thesis by auto
  qed
qed

lemma foldl_linear_insert:
  "sorted (map (rank_key by_cpu) acc) \<Longrightarrow>
   sorted (map (rank_key by_cpu) (foldl (\<lambda>acc v. linear_insert (comparator by_cpu) v acc) acc xs))
   \<and> mset (foldl (\<lambda>acc v. linear_insert (comparator by_cpu) v acc) acc xs) = mset acc + mset xs"
proof (induction xs arbitrary: acc)
  case Nil
  then show ?case by simp
next
  case (Cons x xs)
  from Cons.prems have "sorted (map (rank_key by_cpu) (linear_insert (comparator by_cpu) x acc))"
    by (rule sorted_linear_insert)
  from Cons.IH[OF this] show ?case by (simp add: mset_linear_insert)
qed

lemma insertion_sort_post:
  "std_sort_post (comparator by_cpu) xs (insertion_sort (comparator by_cpu) xs)"
  using foldl_linear_insert[of by_cpu "[]" xs]
  by (simp add: sort_post_keys insertion_sort_def rev_map)


lemmas rank_defs = std_sort_post_def insertion_sort_def comparator_def cpu_less_def mem_less_def
  rank_key_def ranks_before_def row_e9_def row_e100_def row_e5_def

text \<open>
  Claim C5, as stated, fails: the comparators look at the two percentages only. The rows
  of the processes 9 and 5 agree in both, so the list with 9 before 5 is sorted, insertion
  sort leaves it so, and the list with 5 before 9 is a sorted result of the same input as
  well: the process ids do not break the tie, and sorting a sorted list may change it.
\<close>

theorem sort_tie_counterexample:
  "cpu_percent row_e9 = cpu_percent row_e5 \<and> mem_percent row_e9 = mem_percent row_e5
   \<and> pid row_e5 < pid row_e9
   \<and> std_sort_post (comparator True) [row_e9, row_e5] [row_e9, row_e5]
   \<and> insertion_sort (comparator True) [row_e9, row_e5] = [row_e9, row_e5]
   \<and> std_sort_post (comparator True) [row_e9, row_e5] [row_e5, row_e9]
   \<and> [row_e5, row_e9] \<noteq> [row_e9, row_e5]"
  by (simp add: rank_defs)

text \<open>
  Claim C5, amended: every result of the sort holds the rows of its input, ordered by the
  primary percentage descending (\<open>cpu_percent\<close> in CPU mode, \<open>mem_percent\<close> in MEM mode)
  and, among rows equal in it, by the other percentage descending. The comparator leaves
  two rows unordered exactly when they agree in both percentages, whatever their process
  ids. A sorted list is a result of sorting itself, and it is the only one when no two rows
  agree in both percentages.
\<close>

theorem sort_ranks_rows:
  assumes "std_sort_post (comparator by_cpu) xs ys"
  shows "mset ys = mset xs
       \<and> sorted_wrt (ranks_before by_cpu) ys
       \<and> (\<forall>a b. (\<not> comparator by_cpu a b \<and> \<not> comparator by_cpu b a)
                 = (rank_key by_cpu a = rank_key by_cpu b))
       \<and> std_sort_post (comparator by_cpu) ys ys
       \<and> (distinct (map (rank_key by_cpu) xs) \<longrightarrow>
            (\<forall>zs. std_sort_post (comparator by_cpu) ys zs \<longrightarrow> zs = ys))"
proof -
  from assms have m: "mset ys = mset xs"
    and srt: "sorted (rev (map (rank_key by_cpu) ys))"
    by (simp_all add: sort_post_keys)
  have r: "sorted_wrt (ranks_before by_cpu) ys" using srt by (simp only: sorted_rev_keys)
  have tie: "\<forall>a b. (\<not> comparator by_cpu a b \<and> \<not> comparator by_cpu b a)
                 = (rank_key by_cpu a = rank_key by_cpu b)"
    by (auto simp: comparator_key)
  have self: "std_sort_post (comparator by_cpu) ys ys" using srt by (simp add: sort_post_keys)
  have uniq: "zs = ys"
    if d: "distinct (map (rank_key by_cpu) xs)" and z: "std_sort_post (comparator by_cpu) ys zs"
    for zs
  proof -
    have "mset (map (rank_key by_cpu) ys) = mset (map (rank_key by_cpu) xs)"
      using m by simp
    then have dy: "distinct (map (rank_key by_cpu) ys)"
      using d by (metis mset_eq_imp_distinct_iff)
    from z have "sorted (rev (map (rank_key by_cpu) zs))" and "mset zs = mset ys"
      by (simp_all add: sort_post_keys)
    with dy srt show ?thesis by (intro resort_unique)
  qed
  show ?thesis
  proof (intro conjI allI impI)
    show "mset ys = mset xs" by (rule m)
    show "sorted_wrt (ranks_before by_cpu) ys" by (rule r)
    show "std_sort_post (comparator by_cpu) ys ys" by (rule self)
  next
    fix a b
    show "(\<not> comparator by_cpu a b \<and> \<not> comparator by_cpu b a)
          = (rank_key by_cpu a = rank_key by_cpu b)"
      using tie by blast
  next
    fix zs
    assume "distinct (map (rank_key by_cpu) xs)" "std_sort_post (comparator by_cpu) ys zs"
    then show "zs = ys" by (rule uniq)
  qed
qed

theorem sort_ranks_rows_witness:
  "std_sort_post (comparator True) [row_e9, row_e100] [row_e100, row_e9]
   \<and> distinct (map (rank_key True) [row_e9, row_e100])
   \<and> sorted_wrt (ranks_before True) [row_e100, row_e9]
   \<and> std_sort_post (comparator True) [row_e100, row_e9] [row_e100, row_e9]
   \<and> insertion_sort (comparator True) [row_e100, row_e9] = [row_e100, row_e9]"
proof -
  have h: "std_sort_post (comparator True) [row_e9, row_e100] [row_e100, row_e9]"
    by (simp add: rank_defs)
  have d: "distinct (map (rank_key True) [row_e9, row_e100])"
    by (simp add: rank_defs)
  note t = sort_ranks_rows[OF h]
  have r: "sorted_wrt (ranks_before True) [row_e100, row_e9]"
    by (rule t[THEN conjunct2, THEN conjunct1])
  have s: "std_sort_post (comparator True) [row_e100, row_e9] [row_e100, row_e9]"
    by (rule t[THEN conjunct2, THEN conjunct2, THEN conjunct2, THEN conjunct1])
  have i: "insertion_sort (comparator True) [row_e100, row_e9] = [row_e100, row_e9]"
    by (rule t[THEN conjunct2, THEN conjunct2, THEN conjunct2, THEN conjunct2, rule_format,
          OF d insertion_sort_post])
  from h d r s i show ?thesis by simp
qed

section \<open>Used memory\<close>

lemma scan_without_available:
  "filter (starts_with ''MemAvailable:'') lines = [] \<Longrightarrow>
   snd (scan_meminfo uninit lines (mem_free, mem_available)) = mem_available"
  by (induction lines arbitrary: mem_free) (simp_all split: if_splits)

text \<open>
  Claim C6, as stated, fails: with a total of 1000 kB and a summary that has a
  \<^verbatim>\<open>MemFree\<close> line of 300 kB and no \<^verbatim>\<open>MemAvailable\<close> line, the available value stays
  0, the test \<open>mem_total > mem_available\<close> holds, and the used memory is 1000, not 700.
\<close>

theorem mem_used_old_kernel_counterexample:
  "filter (starts_with ''MemAvailable:'') old_meminfo = []
   \<and> scan_meminfo 0 old_meminfo (0, 0) = (300, 0)
   \<and> mem_used 1000 0 old_meminfo = 1000
   \<and> mem_used 1000 0 old_meminfo \<noteq> 1000 - 300"
  by (simp add: old_meminfo_def mem_defs parse_defs)

text \<open>
  Claim C6, amended: the used memory is \<open>total - available\<close> when the total is greater
  than the available value and \<open>total - free\<close> otherwise, where the available value is 0
  unless a \<^verbatim>\<open>MemAvailable\<close> line was read. In particular, when the summary has no
  \<^verbatim>\<open>MemAvailable\<close> line and the total is positive, the used memory equals the total.
\<close>

theorem mem_used_guard:
  "mem_used mem_total uninit lines =
     (if mem_total > snd (scan_meminfo uninit lines (0, 0))
      then mem_total - snd (scan_meminfo uninit lines (0, 0))
      else mem_total - fst (scan_meminfo uninit lines (0, 0)))
   \<and> (filter (starts_with ''MemAvailable:'') lines = [] \<longrightarrow>
        snd (scan_meminfo uninit lines (0, 0)) = 0
        \<and> (mem_total > 0 \<longrightarrow> mem_used mem_total uninit lines = mem_total))"
proof -
  have eq: "mem_used mem_total uninit lines =
     (if mem_total > snd (scan_meminfo uninit lines (0, 0))
      then mem_total - snd (scan_meminfo uninit lines (0, 0))
      else mem_total - fst (scan_meminfo uninit lines (0, 0)))"
    by (simp add: mem_used_def mem_used_of_def split: prod.splits)
  have miss: "snd (scan_meminfo uninit lines (0, 0)) = 0"
    if "filter (starts_with ''MemAvailable:'') lines = []"
    using that by (rule scan_without_available)
  have tot: "mem_used mem_total uninit lines = mem_total"
    if "filter (starts_with ''MemAvailable:'') lines = []" "mem_total > 0"
    using that(2) unfolding eq miss[OF that(1)] by simp
  from eq miss tot show ?thesis by blast
qed

theorem mem_used_guard_witness:
  "filter (starts_with ''MemAvailable:'') old_meminfo = [] \<and> (0 :: u64) < 1000
   \<and> snd (scan_meminfo 0 old_meminfo (0, 0)) = 0
   \<and> mem_used 1000 0 old_meminfo = 1000"
proof -
  have h: "filter (starts_with ''MemAvailable:'') old_meminfo = []"
    by (simp add: old_meminfo_def starts_with_def)
  have p: "(0 :: u64) < 1000" by simp
  note t = mem_used_guard[of 1000 0 old_meminfo, THEN conjunct2, rule_format, OF h]
  have a: "snd (scan_meminfo 0 old_meminfo (0, 0)) = 0" by (rule t[THEN conjunct1])
  have u: "mem_used 1000 0 old_meminfo = 1000" by (rule t[THEN conjunct2, rule_format, OF p])
  from h p a u show ?thesis by simp
qed

text \<open>
  Claim C10: the subtraction is the 64-bit one and nothing guards it. In a tick that
  completes, when the cached total is not greater than the available value read and the
  free value read exceeds the total, the used memory shown is \<open>total - free\<close> modulo
  \<open>2 ^ 64\<close>, that is \<open>2 ^ 64 - (free - total)\<close>, and not 0.
\<close>

theorem mem_used_wraps:
  assumes "tick psz st inp = Inr (view, st')"
    and "scan_meminfo (uninit_val inp) (meminfo inp) (0, 0) = (mem_free, mem_available)"
    and "\<not> total_mem_kb_cache st > mem_available"
    and "mem_free > total_mem_kb_cache st"
  shows "view_mem_used view = total_mem_kb_cache st - mem_free
       \<and> int (unat (view_mem_used view))
           = (int (unat (total_mem_kb_cache st)) - int (unat mem_free)) mod 2 ^ 64
       \<and> unat (view_mem_used view) = 2 ^ 64 - (unat mem_free - unat (total_mem_kb_cache st))
       \<and> view_mem_used view \<noteq> 0"
proof -
  let ?t = "total_mem_kb_cache st"
  have v: "view_mem_used view = ?t - mem_free"
    using tick_Inr(3)[OF assms(1)] assms(2,3) by (simp add: mem_used_def mem_used_of_def)
  have lt: "unat ?t < unat mem_free" using assms(4) by (simp add: word_less_nat_alt)
  have bound: "unat mem_free < 2 ^ 64" using unsigned_less[of mem_free] by simp
  have m: "int (unat (?t - mem_free)) = (int (unat ?t) - int (unat mem_free)) mod 2 ^ 64"
    by (simp add: uint_word_ariths)
  have "unat (?t - mem_free) = unat ?t + 2 ^ 64 - unat mem_free"
    using lt by (simp add: unat_sub_if_size word_size)
  then have u: "unat (?t - mem_free) = 2 ^ 64 - (unat mem_free - unat ?t)"
    using lt bound by linarith
  have nz: "?t - mem_free \<noteq> 0" using assms(4) by auto
  from v m u nz show ?thesis by simp
qed

theorem mem_used_wraps_witness:
  "tick 4 zero_total_state zero_total_input =
     Inr (zero_total_view, zero_total_state\<lparr>prev_procs := Map.empty, prev_cpu := scenario_A_cur\<rparr>)
   \<and> scan_meminfo (uninit_val zero_total_input) (meminfo zero_total_input) (0, 0)
       = (300000, 600000)
   \<and> \<not> total_mem_kb_cache zero_total_state > 600000
   \<and> (300000 :: u64) > total_mem_kb_cache zero_total_state
   \<and> view_mem_used zero_total_view = total_mem_kb_cache zero_total_state - 300000
   \<and> unat (view_mem_used zero_total_view)
       = 2 ^ 64 - (unat (300000 :: u64) - unat (total_mem_kb_cache zero_total_state))
   \<and> view_mem_used zero_total_view \<noteq> 0"
proof -
  have h2: "scan_meminfo (uninit_val zero_total_input) (meminfo zero_total_input) (0, 0)
            = (300000, 600000)"
    by (simp add: zero_total_input_def scenario_input_def scenario_meminfo_def mem_defs
        parse_defs)
  have h3: "\<not> total_mem_kb_cache zero_total_state > 600000"
    and h4: "(300000 :: u64) > total_mem_kb_cache zero_total_state"
    by (simp_all add: zero_total_state_def)
  note t = mem_used_wraps[OF tick_zero_total h2 h3 h4]
  have a: "view_mem_used zero_total_view = total_mem_kb_cache zero_total_state - 300000"
    by (rule t[THEN conjunct1])
  have b: "unat (view_mem_used zero_total_view)
       = 2 ^ 64 - (unat (300000 :: u64) - unat (total_mem_kb_cache zero_total_state))"
    by (rule t[THEN conjunct2, THEN conjunct2, THEN conjunct1])
  have c: "view_mem_used zero_total_view \<noteq> 0"
    by (rule t[THEN conjunct2, THEN conjunct2, THEN conjunct2])
  from tick_zero_total h2 h3 h4 a b c show ?thesis by simp
qed

section \<open>Rendering\<close>

lemma drawn_rows_bound:
  assumes "5 \<le> lines" and "lines < 2 ^ 31"
  shows "length (drawn_rows lines procs) \<le> nat (max_rows lines)"
proof -
  have "(lines - 5) mod 2 ^ 64 = lines - 5" using assms by simp
  then show ?thesis by (simp add: drawn_rows_def max_rows_def size_t_of_def Let_def)
qed

text \<open>
  Claim C7 on the code: on a terminal of 4 lines \<open>max_rows\<close> is \<open>-1\<close>, the bound of the
  loop is \<^verbatim>\<open>(size_t)(-1)\<close>, the largest 64-bit value, and the loop prints every row: two
  rows are printed at the screen lines 3 and 4, the first of which exists on the terminal.
\<close>

theorem drawn_rows_four_lines:
  "max_rows 4 = - 1 \<and> size_t_of (max_rows 4) = 18446744073709551615
   \<and> drawn_rows 4 [row_e100, row_e9] = [(3, row_e100), (4, row_e9)]
   \<and> on_screen 4 (drawn_rows 4 [row_e100, row_e9]) = [(3, row_e100)]
   \<and> drawn_rows 5 [row_e100, row_e9] = []"
  by (simp add: drawn_rows_def max_rows_def size_t_of_def on_screen_def upt_rec)

end
